theory Spec2Isabelle
  imports Main "HOL-Library.Sublist"
begin

section \<open>Strings and characters\<close>

text \<open>
  A Python \<open>str\<close> is modelled as a HOL \<open>string\<close>. One \<open>char\<close> stands for one code
  point in the range 0..255, so \<open>length\<close> counts code points as Python's \<open>len\<close> does.
  The character classes below are the ones CPython uses for these code points:
  \<open>str.isspace\<close> (also \<open>\s\<close> of \<open>re\<close> and the default of \<open>str.strip\<close>),
  \<open>\w\<close> of \<open>re\<close> (alphanumeric or underscore), \<open>\d\<close> of \<open>re\<close> and \<open>str.isdigit\<close>.
\<close>

definition code :: "char \<Rightarrow> nat" where
  "code c = of_char c"

definition isspace :: "char \<Rightarrow> bool" where
  "isspace c = ((9 \<le> code c \<and> code c \<le> 13) \<or> (28 \<le> code c \<and> code c \<le> 32)
     \<or> code c = 133 \<or> code c = 160)"

definition is_decimal :: "char \<Rightarrow> bool" where
  "is_decimal c = (48 \<le> code c \<and> code c \<le> 57)"

definition isdigit_char :: "char \<Rightarrow> bool" where
  "isdigit_char c = (is_decimal c \<or> code c = 178 \<or> code c = 179 \<or> code c = 185)"

definition is_ascii_alnum :: "char \<Rightarrow> bool" where
  "is_ascii_alnum c = (is_decimal c \<or> (65 \<le> code c \<and> code c \<le> 90)
     \<or> (97 \<le> code c \<and> code c \<le> 122))"

definition is_word :: "char \<Rightarrow> bool" where
  "is_word c = (is_ascii_alnum c \<or> code c = 95 \<or> code c = 170 \<or> code c = 178
     \<or> code c = 179 \<or> code c = 181 \<or> code c = 185 \<or> code c = 186
     \<or> (188 \<le> code c \<and> code c \<le> 190) \<or> (192 \<le> code c \<and> code c \<le> 214)
     \<or> (216 \<le> code c \<and> code c \<le> 246) \<or> (248 \<le> code c \<and> code c \<le> 255))"

text \<open>\<open>s.strip()\<close>, \<open>s.strip(chars)\<close> and \<open>s.rstrip(chars)\<close>, by the predicate that says
  which characters are stripped.\<close>

definition lstrip_by :: "(char \<Rightarrow> bool) \<Rightarrow> string \<Rightarrow> string" where
  "lstrip_by p s = dropWhile p s"

definition rstrip_by :: "(char \<Rightarrow> bool) \<Rightarrow> string \<Rightarrow> string" where
  "rstrip_by p s = rev (dropWhile p (rev s))"

definition strip_by :: "(char \<Rightarrow> bool) \<Rightarrow> string \<Rightarrow> string" where
  "strip_by p s = rstrip_by p (lstrip_by p s)"

definition strip :: "string \<Rightarrow> string" where
  "strip s = strip_by isspace s"

text \<open>\<open>s.split('\n')\<close>: always at least one piece.\<close>

fun split_on :: "char \<Rightarrow> string \<Rightarrow> string list" where
  "split_on d [] = [[]]"
| "split_on d (c # cs) =
     (if c = d then [] # split_on d cs
      else (case split_on d cs of [] \<Rightarrow> [[c]] | l # ls \<Rightarrow> (c # l) # ls))"

section \<open>Decimal numbers\<close>

definition digit_char :: "nat \<Rightarrow> char" where
  "digit_char d = ''0123456789'' ! d"

text \<open>\<open>str(n)\<close> of a non-negative integer.\<close>

function str_of_nat :: "nat \<Rightarrow> string" where
  "str_of_nat n =
     (if n < 10 then [digit_char n] else str_of_nat (n div 10) @ [digit_char (n mod 10)])"
  by pat_completeness auto
termination
  by (relation "measure id") auto

declare str_of_nat.simps [simp del]

text \<open>The format specification \<open>02d\<close>: decimal, padded with zeros on the left to width 2.\<close>

definition fmt_02d :: "nat \<Rightarrow> string" where
  "fmt_02d n = replicate (2 - length (str_of_nat n)) (CHR ''0'') @ str_of_nat n"

text \<open>\<open>int(s)\<close> on a string of decimal digits.\<close>

definition int_of_digits :: "string \<Rightarrow> nat" where
  "int_of_digits s = foldl (\<lambda>acc c. 10 * acc + (code c - 48)) 0 s"

section \<open>Timestamps (downloader.py)\<close>

text \<open>
  \<open>format_timestamp(seconds)\<close>: \<open>int(seconds)\<close>, then minutes and seconds, both with
  \<open>02d\<close>. Its only caller passes \<open>current_time\<close>, a non-negative whole number of seconds,
  so the argument is a \<open>nat\<close>.
\<close>

definition format_timestamp :: "nat \<Rightarrow> string" where
  "format_timestamp seconds =
     (let total_secs = seconds; m = total_secs div 60; s = total_secs mod 60
      in ''['' @ fmt_02d m @ '':'' @ fmt_02d s @ '']'')"

text \<open>The format the specification describes for a transcript timestamp, written from its
  words: \<open>H:MM:SS\<close> when hours > 0, else \<open>M:SS\<close>, wrapped in brackets.\<close>

definition spec_format_timestamp :: "nat \<Rightarrow> string" where
  "spec_format_timestamp seconds =
     (let h = seconds div 3600; m = (seconds mod 3600) div 60; s = seconds mod 60
      in if 0 < h then ''['' @ str_of_nat h @ '':'' @ fmt_02d m @ '':'' @ fmt_02d s @ '']''
         else ''['' @ str_of_nat m @ '':'' @ fmt_02d s @ '']'')"


section \<open>File names (filename.py)\<close>

text \<open>
  The exceptions the functions of this module can raise: \<open>re.error\<close>, the two errors of
  \<open>Path.mkdir\<close>, and the \<open>ValueError\<close> of \<open>generate_unique_filename\<close> with its message.
  \<open>OtherError\<close> is any other exception, of a collaborator, with its text.
\<close>

datatype error =
  ReError | FileExistsError | NotADirectoryError | ValueError string | OtherError string

text \<open>
  \<open>sanitize_for_filename\<close> is the fallback implementation of this module, used when the
  shared package cannot be imported. Its first pattern removes the characters of
  \<open>[<>:"/\\|?*\x00-\x1f]\<close>.
\<close>

definition is_illegal :: "char \<Rightarrow> bool" where
  "is_illegal c = (c \<in> set ([CHR ''<'', CHR ''>'', CHR '':'', CHR 0x22, CHR ''/'', CHR 0x5C,
                              CHR ''|'', CHR ''?'', CHR ''*'']) \<or> code c \<le> 31)"

text \<open>\<open>re.sub(r'\s+', replacement, s)\<close>: every maximal run of whitespace becomes the
  separator.\<close>

function sub_spaces :: "char \<Rightarrow> string \<Rightarrow> string" where
  "sub_spaces r [] = []"
| "sub_spaces r (c # cs) =
     (if isspace c then r # sub_spaces r (dropWhile isspace cs) else c # sub_spaces r cs)"
  by pat_completeness auto
termination
proof -
  have shorter: "length (dropWhile p cs) < Suc (length cs)" for p and cs :: string
    using length_dropWhile_le [of p cs] by arith
  show ?thesis
    by (relation "measure (\<lambda>(r, s). length s)") (auto simp: shorter)
qed

text \<open>\<open>re.sub(re.escape(replacement) + '+', replacement, s)\<close>: every maximal run of the
  separator becomes one separator.\<close>

function collapse :: "char \<Rightarrow> string \<Rightarrow> string" where
  "collapse r [] = []"
| "collapse r (c # cs) =
     (if c = r then r # collapse r (dropWhile (\<lambda>x. x = r) cs) else c # collapse r cs)"
  by pat_completeness auto
termination
proof -
  have shorter: "length (dropWhile p cs) < Suc (length cs)" for p and cs :: string
    using length_dropWhile_le [of p cs] by arith
  show ?thesis
    by (relation "measure (\<lambda>(r, s). length s)") (auto simp: shorter)
qed

text \<open>The slice \<open>s[:n]\<close>; a negative \<open>n\<close> counts from the end.\<close>

definition py_take :: "int \<Rightarrow> string \<Rightarrow> string" where
  "py_take n s = (if 0 \<le> n then take (nat n) s else take (length s - nat (- n)) s)"

text \<open>
  The separator is one character, as the specification has it ("a single separator
  character"), and every caller uses the default \<open>_\<close>. A backslash is the one character
  that \<open>re.sub\<close> refuses as a replacement template, so there the third substitution
  raises \<open>re.error\<close>. \<open>s.strip(replacement)\<close> strips the separator from both ends.
\<close>

definition sanitize_for_filename :: "string \<Rightarrow> int \<Rightarrow> char \<Rightarrow> error + string" where
  "sanitize_for_filename text max_length replacement =
     (if text = [] then Inr ''untitled''
      else if replacement = CHR 0x5C then Inl ReError
      else
        (let clean = filter (\<lambda>c. \<not> is_illegal c) text;
             clean = filter (\<lambda>c. is_word c \<or> isspace c \<or> c = CHR ''-'') clean;
             clean = sub_spaces replacement (strip clean);
             clean = collapse replacement clean;
             clean = strip_by (\<lambda>c. c = replacement) clean;
             clean = (if int (length clean) > max_length
                      then rstrip_by (\<lambda>c. c = replacement) (py_take max_length clean)
                      else clean)
         in Inr (if clean = [] then ''untitled'' else clean)))"

text \<open>
  For the proofs: the characters a sanitized name is made of, a text without two
  separators in a row, and the text \<open>sanitize_for_filename\<close> has before it puts the
  placeholder in.
\<close>

definition is_name_char :: "char \<Rightarrow> bool" where
  "is_name_char c = (is_word c \<or> c = CHR ''-'')"

primrec no_double :: "char \<Rightarrow> string \<Rightarrow> bool" where
  "no_double r [] = True"
| "no_double r (c # cs) = (\<not> (c = r \<and> cs \<noteq> [] \<and> hd cs = r) \<and> no_double r cs)"

definition sanitize_clean :: "string \<Rightarrow> int \<Rightarrow> char \<Rightarrow> string" where
  "sanitize_clean text max_length replacement =
     (let clean = filter (\<lambda>c. \<not> is_illegal c) text;
          clean = filter (\<lambda>c. is_word c \<or> isspace c \<or> c = CHR ''-'') clean;
          clean = sub_spaces replacement (strip clean);
          clean = collapse replacement clean;
          clean = strip_by (\<lambda>c. c = replacement) clean
      in if int (length clean) > max_length
         then rstrip_by (\<lambda>c. c = replacement) (py_take max_length clean)
         else clean)"

definition build_filename :: "string \<Rightarrow> string \<Rightarrow> string \<Rightarrow> int \<Rightarrow> error + string" where
  "build_filename author topic year max_length =
     (case sanitize_for_filename author 30 (CHR ''_'') of
        Inl e \<Rightarrow> Inl e
      | Inr clean_author \<Rightarrow>
          (case sanitize_for_filename topic max_length (CHR ''_'') of
             Inl e \<Rightarrow> Inl e
           | Inr clean_topic \<Rightarrow>
               (case sanitize_for_filename year 4 (CHR ''_'') of
                  Inl e \<Rightarrow> Inl e
                | Inr clean_year \<Rightarrow> Inr (clean_author @ ''_'' @ clean_topic @ ''_'' @ clean_year))))"

subsection \<open>Paths and the file system\<close>

text \<open>
  A \<open>Path\<close> is the list of its components from the root. The file system is a map from
  paths to the kind of entry found there; an entry is looked up by its path as written
  (no symbolic links, no resolution of \<open>..\<close>), and permissions are not modelled.
\<close>

type_synonym path = "string list"

datatype node = File | Dir

type_synonym filesystem = "path \<Rightarrow> node option"

definition path_exists :: "filesystem \<Rightarrow> path \<Rightarrow> bool" where
  "path_exists fs p = (fs p \<noteq> None)"

text \<open>
  \<open>dir / s\<close>: the components of \<open>s\<close> are appended, empty components and \<open>.\<close> are
  dropped, and an \<open>s\<close> that starts with a slash replaces \<open>dir\<close>.
\<close>

definition path_parts :: "string \<Rightarrow> path" where
  "path_parts s = filter (\<lambda>c. c \<noteq> [] \<and> c \<noteq> ''.'') (split_on (CHR ''/'') s)"

definition joinpath :: "path \<Rightarrow> string \<Rightarrow> path" where
  "joinpath dir s = (if prefix ''/'' s then path_parts s else dir @ path_parts s)"

text \<open>
  \<open>p.mkdir(parents=True, exist_ok=True)\<close>: an existing directory is left alone, an
  existing file raises, and a missing parent is created first. The root always exists.
\<close>

function mkdir_parents :: "path \<Rightarrow> filesystem \<Rightarrow> error + filesystem" where
  "mkdir_parents p fs =
     (if p = [] then Inr fs
      else
        (case fs p of
           Some Dir \<Rightarrow> Inr fs
         | Some File \<Rightarrow> Inl FileExistsError
         | None \<Rightarrow>
             (if butlast p \<noteq> [] \<and> fs (butlast p) = Some File then Inl NotADirectoryError
              else
                (case mkdir_parents (butlast p) fs of
                   Inl e \<Rightarrow> Inl e
                 | Inr fs' \<Rightarrow> Inr (fs'(p \<mapsto> Dir))))))"
  by pat_completeness auto
termination
  by (relation "measure (\<lambda>(p, fs). length p)") auto

declare mkdir_parents.simps [simp del]

text \<open>
  \<open>expand_path\<close> expands the home directory and environment variables and resolves the
  result against the machine; it is a parameter. The functions below change the file
  system by \<open>mkdir\<close>, so they take it and return it with their result.
\<close>

definition build_output_path ::
  "(string \<Rightarrow> path) \<Rightarrow> string \<Rightarrow> string \<Rightarrow> string \<Rightarrow> string \<Rightarrow> filesystem
     \<Rightarrow> error + (path \<times> filesystem)" where
  "build_output_path expand_path base_dir author filename extension fs =
     (let base = expand_path base_dir
      in case sanitize_for_filename author 50 (CHR ''_'') of
           Inl e \<Rightarrow> Inl e
         | Inr author_folder \<Rightarrow>
             (let output_dir = joinpath base author_folder
              in case mkdir_parents output_dir fs of
                   Inl e \<Rightarrow> Inl e
                 | Inr fs' \<Rightarrow>
                     (let extension = lstrip_by (\<lambda>c. c = CHR ''.'') extension
                      in Inr (joinpath output_dir (filename @ ''.'' @ extension), fs'))))"

text \<open>The \<open>while True\<close> loop of \<open>generate_unique_filename\<close>, from \<open>counter\<close> on.\<close>

function unique_loop ::
  "(string \<Rightarrow> path) \<Rightarrow> string \<Rightarrow> string \<Rightarrow> string \<Rightarrow> string \<Rightarrow> nat \<Rightarrow> filesystem
     \<Rightarrow> error + (path \<times> filesystem)" where
  "unique_loop expand_path base_dir author filename extension counter fs =
     (let numbered_filename = filename @ ''_'' @ str_of_nat counter
      in case build_output_path expand_path base_dir author numbered_filename extension fs of
           Inl e \<Rightarrow> Inl e
         | Inr (path, fs') \<Rightarrow>
             (if \<not> path_exists fs' path then Inr (path, fs')
              else if counter + 1 > 100
                then Inl (ValueError (''Too many files with same name: '' @ filename))
              else unique_loop expand_path base_dir author filename extension (counter + 1) fs'))"
  by pat_completeness auto
termination
  by (relation "measure (\<lambda>(e, b, a, f, x, counter, fs). 101 - counter)") auto

declare unique_loop.simps [simp del]

definition generate_unique_filename ::
  "(string \<Rightarrow> path) \<Rightarrow> string \<Rightarrow> string \<Rightarrow> string \<Rightarrow> string \<Rightarrow> string \<Rightarrow> filesystem
     \<Rightarrow> error + (path \<times> filesystem)" where
  "generate_unique_filename expand_path base_dir author topic year extension fs =
     (case build_filename author topic year 50 of
        Inl e \<Rightarrow> Inl e
      | Inr filename \<Rightarrow>
          (case build_output_path expand_path base_dir author filename extension fs of
             Inl e \<Rightarrow> Inl e
           | Inr (path, fs') \<Rightarrow>
               (if \<not> path_exists fs' path then Inr (path, fs')
                else unique_loop expand_path base_dir author filename extension 2 fs')))"

text \<open>
  The specification's account of collision resolution: attempt 1 is the composed path,
  attempt \<open>k\<close> for \<open>k\<close> from 2 on has \<open>_k\<close> appended to the base filename.
\<close>

definition attempt_name :: "string \<Rightarrow> nat \<Rightarrow> string" where
  "attempt_name filename k = (if k = 1 then filename else filename @ ''_'' @ str_of_nat k)"

definition attempt_path :: "path \<Rightarrow> string \<Rightarrow> string \<Rightarrow> nat \<Rightarrow> path" where
  "attempt_path dir filename extension k =
     joinpath dir (attempt_name filename k @ ''.'' @ lstrip_by (\<lambda>c. c = CHR ''.'') extension)"

text \<open>Test data: an output root, a directory that holds \<open>X_Y_2024.md\<close>, the same with
  \<open>X_Y_2024_2.md\<close> as well, and a disk where every path below the author folder exists.\<close>

definition out_dir :: "string \<Rightarrow> path" where
  "out_dir base_dir = [''out'']"

definition disk1 :: filesystem where
  "disk1 = [[''out''] \<mapsto> Dir, [''out'', ''X''] \<mapsto> Dir, [''out'', ''X'', ''X_Y_2024.md''] \<mapsto> File]"

definition disk2 :: filesystem where
  "disk2 = disk1([''out'', ''X'', ''X_Y_2024_2.md''] \<mapsto> File)"

definition full_disk :: filesystem where
  "full_disk p = (if length p \<le> 2 then Some Dir else Some File)"

section \<open>Video identifiers (downloader.py)\<close>

text \<open>
  \<open>extract_video_id\<close> searches the stripped URL with two patterns in turn. The first is
  one of six literal markers followed by eleven characters of \<open>[a-zA-Z0-9_-]\<close>; a search
  takes the leftmost position where it matches, and at one position the alternatives are
  tried in the order written. The second pattern is the bare identifier between \<open>^\<close>
  and \<open>$\<close> (which also matches before one final newline). The result is group 1.
\<close>

definition is_id_char :: "char \<Rightarrow> bool" where
  "is_id_char c = (is_ascii_alnum c \<or> c = CHR ''_'' \<or> c = CHR ''-'')"

definition id11 :: "string \<Rightarrow> bool" where
  "id11 s = (11 \<le> length s \<and> list_all is_id_char (take 11 s))"

definition id_prefixes :: "string list" where
  "id_prefixes = [''v='', ''/v/'', ''youtu.be/'', ''/embed/'', ''/shorts/'', ''/live/'']"

fun match_id_at :: "string list \<Rightarrow> string \<Rightarrow> string option" where
  "match_id_at [] s = None"
| "match_id_at (p # ps) s =
     (if prefix p s \<and> id11 (drop (length p) s) then Some (take 11 (drop (length p) s))
      else match_id_at ps s)"

fun search_id :: "string \<Rightarrow> string option" where
  "search_id [] = None"
| "search_id (c # cs) =
     (case match_id_at id_prefixes (c # cs) of Some v \<Rightarrow> Some v | None \<Rightarrow> search_id cs)"

definition match_bare_id :: "string \<Rightarrow> string option" where
  "match_bare_id s =
     (if id11 s \<and> (drop 11 s = [] \<or> drop 11 s = [CHR 0x0A]) then Some (take 11 s) else None)"

definition extract_video_id :: "string \<Rightarrow> string option" where
  "extract_video_id url =
     (case search_id (strip url) of Some v \<Rightarrow> Some v | None \<Rightarrow> match_bare_id (strip url))"


section \<open>Links in a description (downloader.py)\<close>

text \<open>
  The URL pattern is \<open>https?://[^\s<>"]+\<close>. At one position it matches when the text
  starts with one of the two schemes and at least one admissible character follows; the
  final \<open>+\<close> is greedy and nothing follows it, so the match takes every admissible
  character. \<open>match_url\<close> returns the match and the text after it.
\<close>

definition is_url_char :: "char \<Rightarrow> bool" where
  "is_url_char c = (\<not> (isspace c \<or> c = CHR ''<'' \<or> c = CHR ''>'' \<or> c = CHR 0x22))"

definition match_url :: "string \<Rightarrow> (string \<times> string) option" where
  "match_url s =
     (let scheme = (if prefix ''https://'' s then Some ''https://''
                    else if prefix ''http://'' s then Some ''http://'' else None)
      in case scheme of
           None \<Rightarrow> None
         | Some p \<Rightarrow>
             (let body = takeWhile is_url_char (drop (length p) s)
              in if body = [] then None
                 else Some (p @ body, dropWhile is_url_char (drop (length p) s))))"

text \<open>\<open>re.findall\<close> and \<open>re.sub\<close> with the empty replacement: the matches from left to
  right without overlap, and the text that is left between them.\<close>

function findall_url :: "string \<Rightarrow> string list" where
  "findall_url [] = []"
| "findall_url (c # cs) =
     (case match_url (c # cs) of
        Some (u, rest) \<Rightarrow> u # findall_url rest
      | None \<Rightarrow> findall_url cs)"
  by pat_completeness auto
termination
proof -
  have shorter: "length rest < length s" if m: "match_url s = Some (u, rest)" for s u rest
  proof -
    from m obtain p where p: "prefix p s" "p \<noteq> []"
        "rest = dropWhile is_url_char (drop (length p) s)"
      by (auto simp: match_url_def Let_def split: if_splits)
    from p(1,2) have "length (drop (length p) s) < length s"
      by (cases s) (auto simp: prefix_def)
    moreover have "length rest \<le> length (drop (length p) s)"
      unfolding p(3) by (rule length_dropWhile_le)
    ultimately show ?thesis
      by simp
  qed
  show ?thesis
    by (relation "measure length") (auto dest: shorter)
qed

function sub_url :: "string \<Rightarrow> string" where
  "sub_url [] = []"
| "sub_url (c # cs) =
     (case match_url (c # cs) of
        Some (u, rest) \<Rightarrow> sub_url rest
      | None \<Rightarrow> c # sub_url cs)"
  by pat_completeness auto
termination
proof -
  have shorter: "length rest < length s" if m: "match_url s = Some (u, rest)" for s u rest
  proof -
    from m obtain p where p: "prefix p s" "p \<noteq> []"
        "rest = dropWhile is_url_char (drop (length p) s)"
      by (auto simp: match_url_def Let_def split: if_splits)
    from p(1,2) have "length (drop (length p) s) < length s"
      by (cases s) (auto simp: prefix_def)
    moreover have "length rest \<le> length (drop (length p) s)"
      unfolding p(3) by (rule length_dropWhile_le)
    ultimately show ?thesis
      by simp
  qed
  show ?thesis
    by (relation "measure length") (auto dest: shorter)
qed

text \<open>A link is the dictionary \<open>{"url": ..., "context": ...}\<close>.\<close>

record link =
  url :: string
  "context" :: string

fun links_loop :: "string list \<Rightarrow> link list \<Rightarrow> link list" where
  "links_loop [] links = links"
| "links_loop (line # ls) links =
     (let urls = findall_url line
      in if urls \<noteq> [] then
           (let context = strip (sub_url line)
            in links_loop ls
                 (links @ map (\<lambda>u. \<lparr>url = u, context = (if context \<noteq> [] then take 100 context else [])\<rparr>) urls))
         else links_loop ls links)"

definition extract_links_from_description :: "string \<Rightarrow> link list" where
  "extract_links_from_description description =
     (if description = [] then []
      else take 20 (links_loop (split_on (CHR 0x0A) description) []))"

text \<open>
  For the proofs: what the loop adds for one line, and for the whole text.
\<close>

definition line_links :: "string \<Rightarrow> link list" where
  "line_links line =
     map (\<lambda>u. \<lparr>url = u, context = take 100 (strip (sub_url line))\<rparr>) (findall_url line)"

definition all_links :: "string \<Rightarrow> link list" where
  "all_links text = concat (map line_links (split_on (CHR 0x0A) text))"

subsection \<open>What the specification says a link is\<close>

text \<open>
  The following is written from the specification alone and uses neither \<open>findall_url\<close>
  nor \<open>sub_url\<close>. A URL is \<open>scheme://\<close> followed by one or more characters that are not
  whitespace, an angle bracket or a quote; the schemes are \<open>http\<close> and \<open>https\<close>. A URL
  starts at a place of the text when a scheme and one such character stand there.
\<close>

definition starts_with :: "string \<Rightarrow> string \<Rightarrow> bool" where
  "starts_with scheme s =
     (prefix scheme s \<and> length scheme < length s \<and> is_url_char (s ! length scheme))"

definition url_starts_at :: "string \<Rightarrow> bool" where
  "url_starts_at s = (starts_with ''http://'' s \<or> starts_with ''https://'' s)"

definition url_with :: "string \<Rightarrow> string \<Rightarrow> bool" where
  "url_with scheme u =
     (prefix scheme u \<and> drop (length scheme) u \<noteq> []
      \<and> list_all is_url_char (drop (length scheme) u))"

definition is_url :: "string \<Rightarrow> bool" where
  "is_url u = (url_with ''http://'' u \<or> url_with ''https://'' u)"

text \<open>A match takes every admissible character: what follows it is no such character.\<close>

definition ends_url :: "string \<Rightarrow> bool" where
  "ends_url rest = (rest = [] \<or> \<not> is_url_char (hd rest))"

text \<open>No URL starts at any place of \<open>g\<close> when \<open>g\<close> is followed by \<open>t\<close>.\<close>

fun url_free :: "string \<Rightarrow> string \<Rightarrow> bool" where
  "url_free [] t = True"
| "url_free (c # g) t = (\<not> url_starts_at (c # g @ t) \<and> url_free g t)"

text \<open>
  A line read from left to right is a sequence of pairs, each a stretch of text without
  URL and the URL that follows it, and a last stretch without URL.
\<close>

fun join_segs :: "(string \<times> string) list \<Rightarrow> string \<Rightarrow> string" where
  "join_segs [] tail = tail"
| "join_segs ((g, u) # ss) tail = g @ u @ join_segs ss tail"

fun valid_segs :: "(string \<times> string) list \<Rightarrow> string \<Rightarrow> bool" where
  "valid_segs [] tail = url_free tail []"
| "valid_segs ((g, u) # ss) tail =
     (url_free g (u @ join_segs ss tail) \<and> is_url u \<and> ends_url (join_segs ss tail)
      \<and> valid_segs ss tail)"

text \<open>
  The links of such a line: one for every URL, from left to right, all with the same
  context, which is the line with all URLs removed (the stretches between them, joined),
  trimmed and cut to 100 characters.
\<close>

definition seg_links :: "(string \<times> string) list \<times> string \<Rightarrow> link list" where
  "seg_links d =
     map (\<lambda>(g, u). \<lparr>url = u, context = take 100 (strip (concat (map fst (fst d)) @ snd d))\<rparr>)
       (fst d)"

definition line_split :: "string \<Rightarrow> (string \<times> string) list \<times> string \<Rightarrow> bool" where
  "line_split line d = (valid_segs (fst d) (snd d) \<and> join_segs (fst d) (snd d) = line)"

text \<open>Eleven lines with two URLs each, and the way they are read.\<close>

definition two_per_line :: string where
  "two_per_line =
     concat (map (\<lambda>i. ''n http://e.org/'' @ str_of_nat i @ '' x https://f.org/'' @ str_of_nat i
                        @ [CHR 0x0A]) [0..<11])"

definition two_per_line_split :: "((string \<times> string) list \<times> string) list" where
  "two_per_line_split =
     map (\<lambda>i. ([(''n '', ''http://e.org/'' @ str_of_nat i),
                  ('' x '', ''https://f.org/'' @ str_of_nat i)], [])) [0..<11]
     @ [([], [])]"

section \<open>Subtitle files (downloader.py)\<close>

text \<open>\<open>sub in s\<close> for strings.\<close>

fun contains :: "string \<Rightarrow> string \<Rightarrow> bool" where
  "contains sub [] = (sub = [])"
| "contains sub (c # cs) = (prefix sub (c # cs) \<or> contains sub cs)"

text \<open>
  \<open>re.match(r'(\d+):(\d+):(\d+)\.(\d+)', line)\<close>: three runs of decimal digits separated
  by colons, a full stop and one more run, at the start of the line. Each run is greedy
  and is followed by a character that is not a digit, so it is the longest run. The
  result is groups 1 to 3 as numbers.
\<close>

definition match_time :: "string \<Rightarrow> (nat \<times> nat \<times> nat) option" where
  "match_time line =
     (let h = takeWhile is_decimal line; r1 = dropWhile is_decimal line
      in if h = [] \<or> \<not> prefix '':'' r1 then None
         else
           (let m = takeWhile is_decimal (tl r1); r2 = dropWhile is_decimal (tl r1)
            in if m = [] \<or> \<not> prefix '':'' r2 then None
               else
                 (let s = takeWhile is_decimal (tl r2); r3 = dropWhile is_decimal (tl r2)
                  in if s = [] \<or> \<not> prefix ''.'' r3 then None
                     else if takeWhile is_decimal (tl r3) = [] then None
                     else Some (int_of_digits h, int_of_digits m, int_of_digits s))))"

text \<open>
  \<open>re.sub(r'<[^>]+>', '', line)\<close>: a tag is \<open><\<close>, at least one character other than
  \<open>>\<close>, then \<open>>\<close>. Where \<open><\<close> starts no tag it stays in the text.
\<close>

function strip_tags :: "string \<Rightarrow> string" where
  "strip_tags [] = []"
| "strip_tags (c # cs) =
     (if c = CHR ''<'' \<and> takeWhile (\<lambda>x. x \<noteq> CHR ''>'') cs \<noteq> []
         \<and> dropWhile (\<lambda>x. x \<noteq> CHR ''>'') cs \<noteq> []
      then strip_tags (tl (dropWhile (\<lambda>x. x \<noteq> CHR ''>'') cs))
      else c # strip_tags cs)"
  by pat_completeness auto
termination
proof -
  have shorter: "length (dropWhile p cs) - Suc 0 < Suc (length cs)" for p and cs :: string
    using length_dropWhile_le [of p cs] by arith
  show ?thesis
    by (relation "measure length") (auto simp: shorter)
qed

record TranscriptEntry =
  timestamp :: string
  "text" :: string

record vtt_state =
  entries :: "TranscriptEntry list"
  current_time :: "nat option"
  seen_text :: "string set"

text \<open>The lines the loop skips: blank, a header, or \<open>line.isdigit()\<close>.\<close>

definition is_metadata :: "string \<Rightarrow> bool" where
  "is_metadata line =
     (line = [] \<or> (prefix ''WEBVTT'' line \<or> prefix ''Kind:'' line \<or> prefix ''Language:'' line)
      \<or> (line \<noteq> [] \<and> list_all isdigit_char line))"

text \<open>The three local variables of the loop before the first line.\<close>

definition vtt_init :: vtt_state where
  "vtt_init = \<lparr>entries = [], current_time = None, seen_text = {}\<rparr>"

text \<open>One iteration of the loop over the lines of the file.\<close>

definition vtt_step :: "string \<Rightarrow> vtt_state \<Rightarrow> vtt_state" where
  "vtt_step raw st =
     (let line = strip raw
      in if is_metadata line then st
         else if contains ''-->'' line then
           (case match_time line of
              Some (h, m, s) \<Rightarrow> st\<lparr>current_time := Some (h * 3600 + m * 60 + s)\<rparr>
            | None \<Rightarrow> st)
         else
           (let clean = strip_tags line
            in if clean \<noteq> [] \<and> clean \<notin> seen_text st then
                 st\<lparr>seen_text := insert clean (seen_text st),
                    entries := entries st @
                      [\<lparr>timestamp = (case current_time st of Some t \<Rightarrow> format_timestamp t
                                      | None \<Rightarrow> ''[00:00]''),
                        text = clean\<rparr>]\<rparr>
               else st))"

text \<open>The argument is the text of the file, or \<open>None\<close> when the file does not exist.\<close>

definition parse_vtt_transcript :: "string option \<Rightarrow> TranscriptEntry list" where
  "parse_vtt_transcript vtt =
     (case vtt of
        None \<Rightarrow> []
      | Some content \<Rightarrow>
          entries (fold vtt_step (split_on (CHR 0x0A) content) vtt_init))"

text \<open>
  The cue sequence before deduplication, written from the specification (section 4.1,
  steps 1 to 3): every content line with non-empty cleaned text gives one cue under the
  time cursor in force, or under the sentinel when no timing line has been seen.
\<close>

definition stamp :: "nat option \<Rightarrow> string" where
  "stamp t = (case t of Some n \<Rightarrow> format_timestamp n | None \<Rightarrow> ''[00:00]'')"

fun cues_from :: "nat option \<Rightarrow> string list \<Rightarrow> TranscriptEntry list" where
  "cues_from t [] = []"
| "cues_from t (raw # ls) =
     (if is_metadata (strip raw) then cues_from t ls
      else if contains ''-->'' (strip raw) then
        cues_from (case match_time (strip raw) of
                     Some (h, m, s) \<Rightarrow> Some (h * 3600 + m * 60 + s) | None \<Rightarrow> t) ls
      else if strip_tags (strip raw) = [] then cues_from t ls
      else \<lparr>timestamp = stamp t, text = strip_tags (strip raw)\<rparr> # cues_from t ls)"

text \<open>Only the first cue of every text survives: the specification's deduplication.\<close>

fun first_by_text :: "TranscriptEntry list \<Rightarrow> TranscriptEntry list" where
  "first_by_text [] = []"
| "first_by_text (c # cs) = c # first_by_text (filter (\<lambda>d. text d \<noteq> text c) cs)"

text \<open>The cues whose text is not in a given set and not repeated, used in the proofs.\<close>

fun keep_unseen :: "string set \<Rightarrow> TranscriptEntry list \<Rightarrow> TranscriptEntry list" where
  "keep_unseen S [] = []"
| "keep_unseen S (c # cs) =
     (if text c \<in> S then keep_unseen S cs else c # keep_unseen (insert (text c) S) cs)"

text \<open>Two timing lines that carry the same cleaned text, and one more cue.\<close>

definition two_stamps :: string where
  "two_stamps = ''00:00:05.520 --> 00:00:08.160'' @ [CHR 0x0A] @ ''hello <c>world</c>'' @ [CHR 0x0A]
     @ ''00:01:07.000 --> 00:01:09.000'' @ [CHR 0x0A] @ ''hello world'' @ [CHR 0x0A] @ ''again''"

section \<open>Data models (models.py)\<close>

text \<open>
  \<open>VideoMeta\<close> with all its fields, since \<open>list.index\<close> compares them all. The field
  \<open>url\<close> is \<open>video_url\<close> here, because \<open>url\<close> is the key of a link; a chapter is a
  dictionary of the metadata source and stays a type parameter.
\<close>

record 'c VideoMeta =
  video_id :: string
  video_url :: string
  title :: string
  channel :: string
  channel_url :: string
  upload_date :: string
  upload_date_formatted :: string
  duration :: int
  duration_formatted :: string
  view_count :: int
  like_count :: int
  channel_follower_count :: int
  description :: string
  proposed_author :: string
  proposed_topic :: string
  proposed_year :: string
  chapters :: "'c list"
  links :: "link list"
  selected :: bool
  transcript :: "TranscriptEntry list"

text \<open>\<open>ProcessResult\<close>; its \<open>video_id\<close>, \<open>url\<close> and \<open>title\<close> carry the prefix \<open>r_\<close>.\<close>

record ProcessResult =
  r_video_id :: string
  r_url :: string
  status :: string
  message :: string
  r_title :: string
  files :: "string list"

definition is_success :: "ProcessResult \<Rightarrow> bool" where
  "is_success r = (status r = ''success'')"

text \<open>
  \<open>BatchState\<close> and its transitions. The Streamlit session state of the interface has
  the same three entries and is modelled by the same record.
\<close>

record 'c BatchState =
  phase :: string
  pending_videos :: "'c VideoMeta list"
  results :: "ProcessResult list"

definition reset :: "'c BatchState \<Rightarrow> 'c BatchState" where
  "reset self = self\<lparr>phase := ''input'', pending_videos := [], results := []\<rparr>"

definition to_review :: "'c BatchState \<Rightarrow> 'c VideoMeta list \<Rightarrow> 'c BatchState" where
  "to_review self videos = self\<lparr>pending_videos := videos, phase := ''review''\<rparr>"

definition to_processing :: "'c BatchState \<Rightarrow> 'c BatchState" where
  "to_processing self = self\<lparr>phase := ''processing'', results := []\<rparr>"

definition to_complete :: "'c BatchState \<Rightarrow> ProcessResult list \<Rightarrow> 'c BatchState" where
  "to_complete self rs = self\<lparr>results := rs, phase := ''complete''\<rparr>"

section \<open>The interface (yt_transcriber_ui.py)\<close>

subsection \<open>The world outside\<close>

text \<open>
  Processing a video runs a download, reads its subtitle file and writes three files. The
  world these steps act on is the disk of the output tree and a state of everything else;
  each step takes the world and returns it with its result or with the exception it
  raised. \<open>run_yt_dlp\<close> stands for the subprocess of \<open>fetch_transcript\<close> together with the
  look at its subtitle file: it gives the text of the file, or \<open>None\<close> when the run left
  no file. The writers, \<open>expand_path\<close> and the text \<open>str(e)\<close> of an exception are
  parameters too.
\<close>

record 'n world =
  disk :: filesystem
  outside :: 'n

record ('c, 'n) collaborators =
  run_yt_dlp :: "string \<Rightarrow> 'n world \<Rightarrow> (error + string option) \<times> 'n world"
  write_markdown :: "'c VideoMeta \<Rightarrow> path \<Rightarrow> 'n world \<Rightarrow> (error + unit) \<times> 'n world"
  write_docx :: "'c VideoMeta \<Rightarrow> path \<Rightarrow> 'n world \<Rightarrow> (error + unit) \<times> 'n world"
  write_json :: "'c VideoMeta \<Rightarrow> path \<Rightarrow> 'n world \<Rightarrow> (error + unit) \<times> 'n world"
  path_expander :: "string \<Rightarrow> path"
  str_exception :: "error \<Rightarrow> string"
  filename_max_length :: int

text \<open>\<open>str(path)\<close> of an absolute path.\<close>

definition str_path :: "path \<Rightarrow> string" where
  "str_path p = concat (map (\<lambda>c. ''/'' @ c) p)"

text \<open>\<open>fetch_transcript\<close> of downloader.py: a run that leaves no subtitle file is no error,
  the transcript is then empty.\<close>

definition fetch_transcript ::
  "('c, 'n) collaborators \<Rightarrow> 'c VideoMeta \<Rightarrow> bool \<Rightarrow> 'n world
     \<Rightarrow> (error + 'c VideoMeta) \<times> 'n world" where
  "fetch_transcript env video include_links w =
     (case run_yt_dlp env (video_id video) w of
        (Inl e, w') \<Rightarrow> (Inl e, w')
      | (Inr vtt_file, w') \<Rightarrow>
          (let video = video\<lparr>transcript := parse_vtt_transcript vtt_file\<rparr>;
               video = (if include_links
                        then video\<lparr>links := extract_links_from_description (description video)\<rparr>
                        else video)
           in (Inr video, w')))"

subsection \<open>Processing one video\<close>

text \<open>
  The body of the \<open>try\<close> of \<open>process_and_save_video\<close>: it gives the filename, the video
  and the three file names, or the first exception raised.
\<close>

definition save_video ::
  "('c, 'n) collaborators \<Rightarrow> 'c VideoMeta \<Rightarrow> string \<Rightarrow> bool \<Rightarrow> 'n world
     \<Rightarrow> (error + (string \<times> 'c VideoMeta \<times> string list)) \<times> 'n world" where
  "save_video env video output_base include_links w =
     (case fetch_transcript env video include_links w of
        (Inl e, w1) \<Rightarrow> (Inl e, w1)
      | (Inr video, w1) \<Rightarrow>
     (case build_filename (proposed_author video) (proposed_topic video) (proposed_year video)
             (filename_max_length env) of
        Inl e \<Rightarrow> (Inl e, w1)
      | Inr filename \<Rightarrow>
     (case build_output_path (path_expander env) output_base (proposed_author video) filename
             ''md'' (disk w1) of
        Inl e \<Rightarrow> (Inl e, w1)
      | Inr (md_path, fs2) \<Rightarrow>
     (case write_markdown env video md_path (w1\<lparr>disk := fs2\<rparr>) of
        (Inl e, w3) \<Rightarrow> (Inl e, w3)
      | (Inr _, w3) \<Rightarrow>
     (case build_output_path (path_expander env) output_base (proposed_author video) filename
             ''docx'' (disk w3) of
        Inl e \<Rightarrow> (Inl e, w3)
      | Inr (docx_path, fs4) \<Rightarrow>
     (case write_docx env video docx_path (w3\<lparr>disk := fs4\<rparr>) of
        (Inl e, w5) \<Rightarrow> (Inl e, w5)
      | (Inr _, w5) \<Rightarrow>
     (case build_output_path (path_expander env) output_base (proposed_author video) filename
             ''json'' (disk w5) of
        Inl e \<Rightarrow> (Inl e, w5)
      | Inr (json_path, fs6) \<Rightarrow>
     (case write_json env video json_path (w5\<lparr>disk := fs6\<rparr>) of
        (Inl e, w7) \<Rightarrow> (Inl e, w7)
      | (Inr _, w7) \<Rightarrow>
          (Inr (filename, video, [str_path md_path, str_path docx_path, str_path json_path]),
           w7)))))))))"

definition process_and_save_video ::
  "('c, 'n) collaborators \<Rightarrow> 'c VideoMeta \<Rightarrow> string \<Rightarrow> bool \<Rightarrow> 'n world
     \<Rightarrow> ProcessResult \<times> 'n world" where
  "process_and_save_video env video output_base include_links w =
     (let result = \<lparr>r_video_id = video_id video, r_url = video_url video, status = ''error'',
                     message = [], r_title = [], files = []\<rparr>
      in case save_video env video output_base include_links w of
           (Inr (filename, video, fs), w') \<Rightarrow>
             (result\<lparr>status := ''success'', message := ''Saved: '' @ filename,
                     r_title := title video, files := fs\<rparr>, w')
         | (Inl e, w') \<Rightarrow> (result\<lparr>message := str_exception env e\<rparr>, w'))"

subsection \<open>The processing phase\<close>

text \<open>The \<open>for\<close> loop of \<open>render_processing_phase\<close> over the selected videos, with the
  list \<open>results\<close> it appends to.\<close>

fun process_loop ::
  "('c, 'n) collaborators \<Rightarrow> string \<Rightarrow> bool \<Rightarrow> 'c VideoMeta list \<Rightarrow> ProcessResult list
     \<Rightarrow> 'n world \<Rightarrow> ProcessResult list \<times> 'n world" where
  "process_loop env output_base include_links [] rs w = (rs, w)"
| "process_loop env output_base include_links (video # videos) rs w =
     (case process_and_save_video env video output_base include_links w of
        (result, w') \<Rightarrow> process_loop env output_base include_links videos (rs @ [result]) w')"

declare process_loop.simps [simp del]

definition render_processing_phase ::
  "('c, 'n) collaborators \<Rightarrow> string \<Rightarrow> bool \<Rightarrow> 'c BatchState \<Rightarrow> 'n world
     \<Rightarrow> 'c BatchState \<times> 'n world" where
  "render_processing_phase env output_base include_links session_state w =
     (let videos = filter selected (pending_videos session_state)
      in case process_loop env output_base include_links videos [] w of
           (rs, w') \<Rightarrow> (session_state\<lparr>results := rs, phase := ''complete''\<rparr>, w'))"

subsection \<open>The review phase\<close>

text \<open>
  A row of the edited table. The table has one row for every pending video, in order
  (\<open>num_rows="fixed"\<close>); the hidden column \<open>_idx\<close> of a row is \<open>videos.index(v)\<close>, the
  place of the first video equal to its own.
\<close>

record row =
  Select :: bool
  Author :: string
  Topic :: string
  Year :: string

fun index_of :: "'a list \<Rightarrow> 'a \<Rightarrow> nat" where
  "index_of [] v = 0"
| "index_of (x # xs) v = (if x = v then 0 else Suc (index_of xs v))"

fun apply_rows :: "(nat \<times> row) list \<Rightarrow> 'c VideoMeta list \<Rightarrow> 'c VideoMeta list" where
  "apply_rows [] videos = videos"
| "apply_rows ((idx, r) # rows) videos =
     apply_rows rows
       (videos[idx := (videos ! idx)\<lparr>selected := Select r, proposed_author := Author r,
                                       proposed_topic := Topic r, proposed_year := Year r\<rparr>])"

text \<open>\<open>st.button\<close>: a disabled button cannot be clicked and returns \<open>False\<close>.\<close>

definition button :: "bool \<Rightarrow> bool \<Rightarrow> bool" where
  "button disabled clicked = (\<not> disabled \<and> clicked)"

definition reset_state :: "'c BatchState \<Rightarrow> 'c BatchState" where
  "reset_state session_state = session_state\<lparr>phase := ''input'', pending_videos := [], results := []\<rparr>"

text \<open>
  One run of \<open>render_review_phase\<close>: the rows as the user left them and the two buttons
  the user may have clicked. \<open>st.rerun()\<close> ends the run, so \<open>Back\<close> wins over \<open>Save\<close>.
\<close>

definition render_review_phase ::
  "row list \<Rightarrow> bool \<Rightarrow> bool \<Rightarrow> 'c BatchState \<Rightarrow> 'c BatchState" where
  "render_review_phase edited back_clicked save_clicked session_state =
     (let videos = pending_videos session_state;
          idxs = map (index_of videos) videos;
          videos = apply_rows (zip idxs edited) videos;
          session_state = session_state\<lparr>pending_videos := videos\<rparr>;
          selected_count = length (filter selected videos);
          back_btn = button False back_clicked;
          save_btn = button (selected_count = 0) save_clicked
      in if back_btn then reset_state session_state
         else if save_btn then session_state\<lparr>phase := ''processing''\<rparr>
         else session_state)"

text \<open>The pending videos after the rows of the table have been written back, for the
  statements below.\<close>

definition edited_videos :: "row list \<Rightarrow> 'c BatchState \<Rightarrow> 'c VideoMeta list" where
  "edited_videos edited session_state =
     apply_rows (zip (map (index_of (pending_videos session_state)) (pending_videos session_state))
                     edited)
       (pending_videos session_state)"

subsection \<open>Test data\<close>

text \<open>
  A video, and collaborators whose download raises for the video \<open>bad\<close> and otherwise
  leaves a subtitle file, and whose writers create the file they are given.
\<close>

definition demo_video :: "string \<Rightarrow> unit VideoMeta" where
  "demo_video vid =
     \<lparr>video_id = vid, video_url = ''https://youtu.be/'' @ vid, title = ''Talk'',
      channel = ''X'', channel_url = [], upload_date = ''20240102'',
      upload_date_formatted = ''2024-01-02'', duration = 90, duration_formatted = ''1:30'',
      view_count = 0, like_count = 0, channel_follower_count = 0, description = ''see http://e.org'',
      proposed_author = ''X'', proposed_topic = vid, proposed_year = ''2024'', chapters = [],
      links = [], selected = True, transcript = []\<rparr>"

definition demo_write :: "unit VideoMeta \<Rightarrow> path \<Rightarrow> unit world \<Rightarrow> (error + unit) \<times> unit world" where
  "demo_write video p w = (Inr (), w\<lparr>disk := (disk w)(p \<mapsto> File)\<rparr>)"

definition demo_env :: "(unit, unit) collaborators" where
  "demo_env =
     \<lparr>run_yt_dlp = (\<lambda>vid w. if vid = ''bad'' then (Inl (OtherError ''no network''), w)
                             else (Inr (Some two_stamps), w)),
      write_markdown = demo_write, write_docx = demo_write, write_json = demo_write,
      path_expander = out_dir,
      str_exception = (\<lambda>e. case e of OtherError m \<Rightarrow> m | _ \<Rightarrow> ''error''),
      filename_max_length = 50\<rparr>"

definition demo_world :: "unit world" where
  "demo_world = \<lparr>disk = Map.empty, outside = ()\<rparr>"

definition demo_state :: "unit BatchState" where
  "demo_state =
     \<lparr>phase = ''processing'',
      pending_videos = [demo_video ''one'', demo_video ''bad'',
                        (demo_video ''skipped'')\<lparr>selected := False\<rparr>, demo_video ''three''],
      results = []\<rparr>"

definition demo_review :: "unit BatchState" where
  "demo_review = \<lparr>phase = ''review'', pending_videos = [demo_video ''one''], results = []\<rparr>"

definition unselect :: row where
  "unselect = \<lparr>Select = False, Author = ''X'', Topic = ''one'', Year = ''2024''\<rparr>"

section \<open>Facts about decimal numbers\<close>

lemma digit_char_decimal: "d < 10 \<Longrightarrow> is_decimal (digit_char d)"
proof -
  assume "d < 10"
  then have "d \<in> {0, 1, 2, 3, 4, 5, 6, 7, 8, 9}" by auto
  then show ?thesis
    by (auto simp: digit_char_def is_decimal_def code_def)
qed

lemma code_digit_char: "d < 10 \<Longrightarrow> code (digit_char d) = 48 + d"
proof -
  assume "d < 10"
  then have "d \<in> {0, 1, 2, 3, 4, 5, 6, 7, 8, 9}" by auto
  then show ?thesis
    by (auto simp: digit_char_def code_def)
qed

lemma str_of_nat_decimal: "list_all is_decimal (str_of_nat n)"
proof (induction n rule: str_of_nat.induct)
  case (1 n)
  show ?case
  proof (cases "n < 10")
    case True
    then show ?thesis by (subst str_of_nat.simps) (simp add: digit_char_decimal)
  next
    case False
    with 1 show ?thesis by (subst str_of_nat.simps) (simp add: digit_char_decimal)
  qed
qed

lemma str_of_nat_nonempty: "str_of_nat n \<noteq> []"
  by (subst str_of_nat.simps) simp

lemma int_of_digits_snoc: "int_of_digits (s @ [c]) = 10 * int_of_digits s + (code c - 48)"
  by (simp add: int_of_digits_def)

lemma int_of_digits_str_of_nat: "int_of_digits (str_of_nat n) = n"
proof (induction n rule: str_of_nat.induct)
  case (1 n)
  show ?case
  proof (cases "n < 10")
    case True
    then show ?thesis
      by (subst str_of_nat.simps) (simp add: int_of_digits_def code_digit_char)
  next
    case False
    with 1 have "int_of_digits (str_of_nat (n div 10)) = n div 10" by simp
    with False show ?thesis
      by (subst str_of_nat.simps) (simp add: int_of_digits_snoc code_digit_char)
  qed
qed

lemma foldl_zeros:
  "foldl (\<lambda>acc c. 10 * acc + (code c - 48)) 0 (replicate j (CHR ''0'')) = 0"
  by (induction j) (simp_all add: code_def)

lemma int_of_digits_zeros: "int_of_digits (replicate k (CHR ''0'') @ s) = int_of_digits s"
  by (simp add: int_of_digits_def foldl_zeros)

lemma int_of_digits_fmt_02d: "int_of_digits (fmt_02d n) = n"
  by (simp add: fmt_02d_def int_of_digits_zeros int_of_digits_str_of_nat)

lemma zeros_decimal: "list_all is_decimal (replicate k (CHR ''0''))"
  by (induction k) (simp_all add: is_decimal_def code_def)

lemma fmt_02d_decimal: "list_all is_decimal (fmt_02d n)"
  by (simp add: fmt_02d_def str_of_nat_decimal zeros_decimal)

lemma length_fmt_02d_ge: "2 \<le> length (fmt_02d n)"
  by (simp add: fmt_02d_def)

lemma str_of_nat_small: "n < 100 \<Longrightarrow> length (str_of_nat n) \<le> 2"
proof -
  assume n: "n < 100"
  show ?thesis
  proof (cases "n < 10")
    case True
    then show ?thesis by (subst str_of_nat.simps) simp
  next
    case False
    with n have "n div 10 < 10" by simp
    then have "length (str_of_nat (n div 10)) = 1"
      by (subst str_of_nat.simps) simp
    with False show ?thesis by (subst str_of_nat.simps) simp
  qed
qed

lemma length_fmt_02d_small: "n < 100 \<Longrightarrow> length (fmt_02d n) = 2"
  using str_of_nat_small [of n] by (simp add: fmt_02d_def)

lemma colon_not_decimal: "list_all is_decimal s \<Longrightarrow> count_list s (CHR '':'') = 0"
  by (induction s) (auto simp: is_decimal_def code_def)

section \<open>C3: timestamps\<close>

text \<open>
  C3 (as the code has it). For every non-negative time in whole seconds,
  \<open>format_timestamp\<close> returns \<open>[MM:SS]\<close>: an opening bracket, the total number of
  minutes (seconds div 60, never reduced to hours) in at least two decimal digits, one
  colon, the seconds (seconds mod 60) in exactly two decimal digits, a closing bracket.
  The string has exactly one colon, so there is no hours field, and time 0 gives the
  sentinel \<open>[00:00]\<close> used for a cue of unknown time.
\<close>

theorem format_timestamp_mm_ss:
  "\<exists>mm ss. format_timestamp n = ''['' @ mm @ '':'' @ ss @ '']''
     \<and> list_all is_decimal mm \<and> list_all is_decimal ss
     \<and> 2 \<le> length mm \<and> length ss = 2
     \<and> int_of_digits mm = n div 60 \<and> int_of_digits ss = n mod 60
     \<and> count_list (format_timestamp n) (CHR '':'') = 1
     \<and> format_timestamp 0 = ''[00:00]''"
proof -
  let ?mm = "fmt_02d (n div 60)" and ?ss = "fmt_02d (n mod 60)"
  have f: "format_timestamp n = ''['' @ ?mm @ '':'' @ ?ss @ '']''"
    by (simp add: format_timestamp_def)
  have c: "count_list (format_timestamp n) (CHR '':'') = 1"
    by (simp add: f colon_not_decimal fmt_02d_decimal)
  have z: "format_timestamp 0 = ''[00:00]''"
    by (simp add: format_timestamp_def fmt_02d_def digit_char_def str_of_nat.simps)
  have l: "length ?ss = 2" by (simp add: length_fmt_02d_small)
  from f c z l show ?thesis
    using fmt_02d_decimal length_fmt_02d_ge int_of_digits_fmt_02d by blast
qed

text \<open>
  C3 as stated fails: one hour is formatted as sixty minutes, not as \<open>1:00:00\<close>, and
  minutes below ten keep their leading zero.
\<close>

theorem format_timestamp_hours_counterexample:
  "format_timestamp 3600 = ''[60:00]'' \<and> spec_format_timestamp 3600 = ''[1:00:00]''
     \<and> format_timestamp 3600 \<noteq> spec_format_timestamp 3600
     \<and> format_timestamp 65 = ''[01:05]'' \<and> spec_format_timestamp 65 = ''[1:05]''"
  by (simp add: format_timestamp_def spec_format_timestamp_def fmt_02d_def digit_char_def
      str_of_nat.simps)

section \<open>C10: video identifiers\<close>

lemma match_id_at_ok: "match_id_at ps s = Some v \<Longrightarrow> length v = 11 \<and> list_all is_id_char v"
  by (induction ps) (auto simp: id11_def split: if_splits)

lemma search_id_ok: "search_id s = Some v \<Longrightarrow> length v = 11 \<and> list_all is_id_char v"
  by (induction s) (auto dest: match_id_at_ok split: option.splits)

lemma match_bare_id_ok: "match_bare_id s = Some v \<Longrightarrow> length v = 11 \<and> list_all is_id_char v"
  by (auto simp: match_bare_id_def id11_def split: if_splits)

lemma dropWhile_all_append: "list_all p l \<Longrightarrow> dropWhile p (l @ s) = dropWhile p s"
  by (induction l) simp_all

lemma lstrip_by_append: "list_all p l \<Longrightarrow> lstrip_by p (l @ s) = lstrip_by p s"
  by (simp add: lstrip_by_def dropWhile_all_append)

lemma rstrip_by_append: "list_all p r \<Longrightarrow> rstrip_by p (s @ r) = rstrip_by p s"
  by (simp add: rstrip_by_def dropWhile_all_append)

lemma strip_by_pad: "list_all p l \<Longrightarrow> list_all p r \<Longrightarrow> strip_by p (l @ s @ r) = strip_by p s"
proof -
  assume l: "list_all p l" and r: "list_all p r"
  have 1: "lstrip_by p (l @ s @ r) = lstrip_by p (s @ r)" using l by (rule lstrip_by_append)
  show ?thesis
  proof (cases "list_all p s")
    case True
    then have "list_all p (s @ r)" using r by simp
    then have "lstrip_by p (s @ r) = []" "lstrip_by p s = []" using True
      by (simp_all add: lstrip_by_def list_all_iff)
    then show ?thesis using 1 by (simp add: strip_by_def)
  next
    case False
    then obtain x where x: "x \<in> set s" "\<not> p x" by (auto simp: list_all_iff)
    then have 2: "lstrip_by p (s @ r) = lstrip_by p s @ r"
      by (simp add: lstrip_by_def dropWhile_append1)
    have "rstrip_by p (lstrip_by p s @ r) = rstrip_by p (lstrip_by p s)"
      using r by (rule rstrip_by_append)
    then show ?thesis using 1 2 by (simp add: strip_by_def)
  qed
qed

text \<open>
  C10. For every input string, \<open>extract_video_id\<close> returns either \<open>None\<close> or a string
  of exactly 11 characters, each an ASCII letter, a digit, an underscore or a hyphen; and
  whitespace added before and after the input never changes the result.
\<close>

theorem extract_video_id_shape:
  "(extract_video_id input = None
      \<or> (\<exists>v. extract_video_id input = Some v \<and> length v = 11 \<and> list_all is_id_char v))
   \<and> (list_all isspace l \<and> list_all isspace r \<longrightarrow>
        extract_video_id (l @ input @ r) = extract_video_id input)"
proof
  show "extract_video_id input = None
      \<or> (\<exists>v. extract_video_id input = Some v \<and> length v = 11 \<and> list_all is_id_char v)"
  proof (cases "extract_video_id input")
    case None
    then show ?thesis by simp
  next
    case (Some v)
    then have "length v = 11 \<and> list_all is_id_char v"
      by (auto simp: extract_video_id_def dest: search_id_ok match_bare_id_ok
          split: option.splits)
    with Some show ?thesis by simp
  qed
  show "list_all isspace l \<and> list_all isspace r \<longrightarrow>
        extract_video_id (l @ input @ r) = extract_video_id input"
  proof
    assume "list_all isspace l \<and> list_all isspace r"
    then have "strip (l @ input @ r) = strip input"
      by (simp add: strip_def strip_by_pad)
    then show "extract_video_id (l @ input @ r) = extract_video_id input"
      by (simp add: extract_video_id_def cong: option.case_cong)
  qed
qed

text \<open>The theorem at a share link padded with a blank, a tab and a newline.\<close>

theorem extract_video_id_shape_witness:
  "list_all isspace [CHR '' '', CHR 0x09] \<and> list_all isspace [CHR 0x0A]
   \<and> extract_video_id ([CHR '' '', CHR 0x09] @ ''https://youtu.be/dQw4w9WgXcQ?si=x'' @ [CHR 0x0A])
      = extract_video_id ''https://youtu.be/dQw4w9WgXcQ?si=x''
   \<and> extract_video_id ''https://youtu.be/dQw4w9WgXcQ?si=x'' = Some ''dQw4w9WgXcQ''"
proof -
  have s: "list_all isspace [CHR '' '', CHR 0x09] \<and> list_all isspace [CHR 0x0A]"
    by (simp add: isspace_def code_def)
  have v: "extract_video_id ''https://youtu.be/dQw4w9WgXcQ?si=x'' = Some ''dQw4w9WgXcQ''"
    by (simp add: extract_video_id_def strip_def strip_by_def lstrip_by_def rstrip_by_def
        isspace_def code_def id_prefixes_def id11_def is_id_char_def is_ascii_alnum_def
        is_decimal_def match_bare_id_def)
  from s v show ?thesis
    using extract_video_id_shape [of "''https://youtu.be/dQw4w9WgXcQ?si=x''"
        "[CHR '' '', CHR 0x09]" "[CHR 0x0A]"]
    by blast
qed

section \<open>C9: link extraction\<close>

lemma links_loop_acc: "links_loop ls acc = acc @ concat (map line_links ls)"
proof (induction ls arbitrary: acc)
  case Nil
  show ?case by simp
next
  case (Cons line ls)
  have t: "(if c \<noteq> [] then take 100 c else []) = take 100 c" for c :: string
    by simp
  show ?case
  proof (cases "findall_url line = []")
    case True
    then show ?thesis by (simp add: Cons line_links_def)
  next
    case False
    then show ?thesis by (simp add: Cons line_links_def Let_def t)
  qed
qed

lemma extract_links_eq: "extract_links_from_description desc = take 20 (all_links desc)"
  by (simp add: extract_links_from_description_def all_links_def links_loop_acc line_links_def)

lemma takeWhile_Nil_iff: "takeWhile P xs = [] \<longleftrightarrow> xs = [] \<or> \<not> P (hd xs)"
  by (cases xs) auto

lemma takeWhile_drop_Nil:
  "takeWhile P (drop k s) = [] \<longleftrightarrow> \<not> (k < length s \<and> P (s ! k))"
  by (cases "k < length s") (simp_all add: takeWhile_Nil_iff hd_drop_conv_nth)

lemma schemes_exclusive: "prefix ''https://'' s \<Longrightarrow> \<not> prefix ''http://'' s"
  by (auto simp: prefix_def)

lemma match_url_scheme:
  "match_url s =
     (if prefix ''https://'' s \<or> prefix ''http://'' s then
        (let p = (if prefix ''https://'' s then ''https://'' else ''http://'');
             body = takeWhile is_url_char (drop (length p) s)
         in if body = [] then None else Some (p @ body, dropWhile is_url_char (drop (length p) s)))
      else None)"
  unfolding match_url_def Let_def by (simp split: if_splits)

lemma match_url_None_iff: "match_url s = None \<longleftrightarrow> \<not> url_starts_at s"
proof (cases "prefix ''https://'' s")
  case True
  with schemes_exclusive [OF True] show ?thesis
    unfolding match_url_scheme url_starts_at_def starts_with_def Let_def
    by (simp only: takeWhile_drop_Nil if_True simp_thms split: if_splits) simp
next
  case False
  then show ?thesis
    unfolding match_url_scheme url_starts_at_def starts_with_def Let_def
    by (simp only: takeWhile_drop_Nil if_False simp_thms split: if_splits) auto
qed

lemma takeWhile_all_then_stop:
  "list_all P b \<Longrightarrow> r = [] \<or> \<not> P (hd r)
   \<Longrightarrow> takeWhile P (b @ r) = b \<and> dropWhile P (b @ r) = r"
  by (induction b) (auto simp: takeWhile_Nil_iff dropWhile_eq_self_iff)

lemma match_url_with:
  assumes p: "p = ''https://'' \<or> p = ''http://''" and w: "url_with p u" and e: "ends_url rest"
  shows "match_url (u @ rest) = Some (u, rest)"
proof -
  from w obtain b where u: "u = p @ b" and b: "b \<noteq> []" "list_all is_url_char b"
    by (auto simp: url_with_def prefix_def)
  from e have "rest = [] \<or> \<not> is_url_char (hd rest)" by (simp add: ends_url_def)
  with b(2) have t: "takeWhile is_url_char (b @ rest) = b"
      "dropWhile is_url_char (b @ rest) = rest"
    using takeWhile_all_then_stop by blast+
  have d: "drop (length p) (u @ rest) = b @ rest" by (simp add: u)
  have pr: "prefix p (u @ rest)" by (simp add: u)
  show ?thesis
  proof (cases "p = ''https://''")
    case True
    with pr have "prefix ''https://'' (u @ rest)" by simp
    with d t b(1) show ?thesis
      unfolding match_url_scheme Let_def by (simp add: True u)
  next
    case False
    with p have h: "p = ''http://''" by simp
    with pr have 1: "prefix ''http://'' (u @ rest)" by simp
    then have 2: "\<not> prefix ''https://'' (u @ rest)" using schemes_exclusive by blast
    from 1 2 d t b(1) show ?thesis
      unfolding match_url_scheme Let_def by (simp add: h u)
  qed
qed


lemma match_url_whole:
  assumes "is_url u" and "ends_url rest"
  shows "match_url (u @ rest) = Some (u, rest)"
  using assms match_url_with [of "''http://''" u rest] match_url_with [of "''https://''" u rest]
  by (auto simp: is_url_def)



lemma match_url_parts:
  assumes m: "match_url s = Some (u, rest)"
  shows "s = u @ rest \<and> is_url u \<and> ends_url rest"
proof -
  from m have pre: "prefix ''https://'' s \<or> prefix ''http://'' s"
    unfolding match_url_scheme by (simp split: if_splits)
  define p where "p = (if prefix ''https://'' s then ''https://'' else ''http://'')"
  let ?t = "drop (length p) s"
  from pre have pp: "prefix p s" by (auto simp: p_def)
  have sc: "p = ''https://'' \<or> p = ''http://''" by (simp add: p_def)
  have eq: "match_url s =
      (if takeWhile is_url_char ?t = [] then None
       else Some (p @ takeWhile is_url_char ?t, dropWhile is_url_char ?t))"
    using pre by (simp only: match_url_scheme Let_def p_def if_True)
  with m have b: "takeWhile is_url_char ?t \<noteq> []"
    by (cases "takeWhile is_url_char ?t = []") simp_all
  with m eq have u: "u = p @ takeWhile is_url_char ?t" and r: "rest = dropWhile is_url_char ?t"
    by simp_all
  from pp obtain t where st: "s = p @ t" by (auto simp: prefix_def)
  then have dt: "drop (length p) s = t" by simp
  have 1: "s = u @ rest" unfolding u r dt by (simp add: st)
  have a: "list_all is_url_char (takeWhile is_url_char ?t)"
    by (auto simp: list_all_iff dest: set_takeWhileD)
  have "url_with p u" using a b by (simp add: url_with_def u)
  with sc have 2: "is_url u" by (auto simp: is_url_def)
  have 3: "ends_url rest"
    unfolding r ends_url_def using hd_dropWhile [of is_url_char ?t] by auto
  from 1 2 3 show ?thesis by simp
qed

lemma findall_sub_match:
  "match_url s = Some (u, rest)
   \<Longrightarrow> findall_url s = u # findall_url rest \<and> sub_url s = sub_url rest"
  by (cases s) (simp_all add: match_url_def)

lemma findall_sub_free:
  "url_free g t \<Longrightarrow> findall_url (g @ t) = findall_url t \<and> sub_url (g @ t) = g @ sub_url t"
  by (induction g) (simp_all add: match_url_None_iff [symmetric])

lemma findall_sub_segs:
  "valid_segs ss tail
   \<Longrightarrow> findall_url (join_segs ss tail) = map snd ss
       \<and> sub_url (join_segs ss tail) = concat (map fst ss) @ tail"
proof (induction ss)
  case Nil
  then show ?case using findall_sub_free [of tail "[]"] by simp
next
  case (Cons p ss)
  obtain g u where p: "p = (g, u)" by (cases p)
  from Cons.prems p have v: "url_free g (u @ join_segs ss tail)" "is_url u"
      "ends_url (join_segs ss tail)" "valid_segs ss tail"
    by simp_all
  from match_url_whole [OF v(2,3)]
  have "findall_url (u @ join_segs ss tail) = u # findall_url (join_segs ss tail)
      \<and> sub_url (u @ join_segs ss tail) = sub_url (join_segs ss tail)"
    by (rule findall_sub_match)
  with findall_sub_free [OF v(1)] Cons.IH [OF v(4)] show ?case
    by (simp add: p)
qed

lemma line_links_split: "line_split line d \<Longrightarrow> line_links line = seg_links d"
proof -
  assume "line_split line d"
  then have v: "valid_segs (fst d) (snd d)" and j: "join_segs (fst d) (snd d) = line"
    by (simp_all add: line_split_def)
  from findall_sub_segs [OF v] show ?thesis
    by (simp add: line_links_def seg_links_def j case_prod_beta comp_def)
qed

lemma lines_links_split:
  "list_all2 line_split ls ds \<Longrightarrow> concat (map line_links ls) = concat (map seg_links ds)"
  by (induction rule: list_all2_induct) (simp_all add: line_links_split)

lemma line_split_exists: "\<exists>d. line_split s d"
proof (induction "length s" arbitrary: s rule: less_induct)
  case less
  show ?case
  proof (cases s)
    case Nil
    then have "line_split s ([], [])" by (simp add: line_split_def)
    then show ?thesis ..
  next
    case (Cons c cs)
    show ?thesis
    proof (cases "match_url s")
      case None
      then have n: "\<not> url_starts_at (c # cs)" by (simp add: match_url_None_iff Cons)
      from less [of cs] Cons obtain d where "line_split cs d" by auto
      then have v: "valid_segs (fst d) (snd d)" and j: "join_segs (fst d) (snd d) = cs"
        by (simp_all add: line_split_def)
      show ?thesis
      proof (cases "fst d")
        case Nil
        with v j have "url_free cs []" and "snd d = cs" by simp_all
        with n have "line_split s ([], c # cs)"
          by (simp add: line_split_def \<open>s = c # cs\<close>)
        then show ?thesis ..
      next
        case (Cons p ss')
        obtain g u where p: "p = (g, u)" by (cases p)
        from v j Cons p have f: "url_free g (u @ join_segs ss' (snd d))" "is_url u"
            "ends_url (join_segs ss' (snd d))" "valid_segs ss' (snd d)"
            and c: "g @ u @ join_segs ss' (snd d) = cs"
          by simp_all
        from n c have "\<not> url_starts_at (c # g @ u @ join_segs ss' (snd d))" by simp
        with f c have "line_split s ((c # g, u) # ss', snd d)"
          by (simp add: line_split_def \<open>s = c # cs\<close>)
        then show ?thesis ..
      qed
    next
      case (Some m)
      obtain u rest where m: "m = (u, rest)" by (cases m)
      from match_url_parts [of s u rest] Some m
      have s: "s = u @ rest" and u: "is_url u" and e: "ends_url rest" by simp_all
      from u have "u \<noteq> []" by (auto simp: is_url_def url_with_def)
      with s have "length rest < length s" by simp
      from less [OF this] obtain d where "line_split rest d" by auto
      then have v: "valid_segs (fst d) (snd d)" and j: "join_segs (fst d) (snd d) = rest"
        by (simp_all add: line_split_def)
      from v j u e s have "line_split s (([], u) # fst d, snd d)"
        by (simp add: line_split_def)
      then show ?thesis ..
    qed
  qed
qed

lemma lines_split_exist: "\<exists>ds. list_all2 line_split ls ds"
proof (induction ls)
  case Nil
  show ?case by simp
next
  case (Cons l ls)
  then obtain ds where "list_all2 line_split ls ds" by blast
  moreover obtain d where "line_split l d" using line_split_exists by blast
  ultimately have "list_all2 line_split (l # ls) (d # ds)" by simp
  then show ?case ..
qed

text \<open>
  C9. For every input text, every line can be read as stretches of text without URL
  separated by URLs, and for every such reading of the lines link extraction returns the
  first twenty of their links in first-seen order: top to bottom by line and left to right
  within a line, each link with the URL as it stands in the text. The result is the empty
  list when the text has no URL, and has exactly 20 links, the later ones dropped and none
  reordered, when the text has more than 20 URLs. All links of a line share that line's
  context, the line with every URL occurrence removed, trimmed and truncated to 100
  characters.
\<close>

theorem extract_links_first_twenty:
  "(\<exists>ds. list_all2 line_split (split_on (CHR 0x0A) desc) ds)
   \<and> (list_all2 line_split (split_on (CHR 0x0A) desc) ds \<longrightarrow>
        extract_links_from_description desc = take 20 (concat (map seg_links ds))
        \<and> (concat (map fst ds) = [] \<longrightarrow> extract_links_from_description desc = [])
        \<and> (20 < length (concat (map fst ds)) \<longrightarrow>
             length (extract_links_from_description desc) = 20))"
proof -
  have len: "length (concat (map seg_links xs)) = length (concat (map fst xs))" for xs
    by (induction xs) (simp_all add: seg_links_def)
  have "extract_links_from_description desc = take 20 (concat (map seg_links ds))
        \<and> (concat (map fst ds) = [] \<longrightarrow> extract_links_from_description desc = [])
        \<and> (20 < length (concat (map fst ds)) \<longrightarrow>
             length (extract_links_from_description desc) = 20)"
    if s: "list_all2 line_split (split_on (CHR 0x0A) desc) ds"
  proof -
    have e: "extract_links_from_description desc = take 20 (concat (map seg_links ds))"
      using lines_links_split [OF s] by (simp add: extract_links_eq all_links_def)
    have n: "concat (map seg_links ds) = []" if "concat (map fst ds) = []"
      using len [of ds] that by simp
    from e n len [of ds] show ?thesis by auto
  qed
  with lines_split_exist show ?thesis by blast
qed

text \<open>
  The theorem at a line with two URLs, at a text without any, and at eleven lines with
  two URLs each, with the links it gives.
\<close>

theorem extract_links_first_twenty_witness:
  "list_all2 line_split (split_on (CHR 0x0A) ''a http://x.y/1 b https://z/2 c'')
     [([(''a '', ''http://x.y/1''), ('' b '', ''https://z/2'')], '' c'')]
   \<and> extract_links_from_description ''a http://x.y/1 b https://z/2 c''
     = [\<lparr>url = ''http://x.y/1'', context = ''a  b  c''\<rparr>,
        \<lparr>url = ''https://z/2'', context = ''a  b  c''\<rparr>]
   \<and> list_all2 line_split (split_on (CHR 0x0A) ''no links here'') [([], ''no links here'')]
   \<and> extract_links_from_description ''no links here'' = []
   \<and> list_all2 line_split (split_on (CHR 0x0A) two_per_line) two_per_line_split
   \<and> 20 < length (concat (map fst two_per_line_split))
   \<and> length (extract_links_from_description two_per_line) = 20
   \<and> extract_links_from_description two_per_line
     = concat (map (\<lambda>i. [\<lparr>url = ''http://e.org/'' @ str_of_nat i, context = ''n  x''\<rparr>,
                          \<lparr>url = ''https://f.org/'' @ str_of_nat i, context = ''n  x''\<rparr>])
                 [0..<10])"
proof -
  have a: "list_all2 line_split (split_on (CHR 0x0A) ''a http://x.y/1 b https://z/2 c'')
     [([(''a '', ''http://x.y/1''), ('' b '', ''https://z/2'')], '' c'')]"
    by code_simp
  have a': "take 20 (concat (map seg_links
      [([(''a '', ''http://x.y/1''), ('' b '', ''https://z/2'')], '' c'')]))
     = [\<lparr>url = ''http://x.y/1'', context = ''a  b  c''\<rparr>,
        \<lparr>url = ''https://z/2'', context = ''a  b  c''\<rparr>]"
    by code_simp
  have b: "list_all2 line_split (split_on (CHR 0x0A) ''no links here'') [([], ''no links here'')]"
    by code_simp
  have b': "concat (map fst [([], ''no links here'') :: (string \<times> string) list \<times> string]) = []"
    by simp
  have c: "list_all2 line_split (split_on (CHR 0x0A) two_per_line) two_per_line_split"
    by code_simp
  have c': "20 < length (concat (map fst two_per_line_split))"
    by code_simp
  have c'': "take 20 (concat (map seg_links two_per_line_split))
     = concat (map (\<lambda>i. [\<lparr>url = ''http://e.org/'' @ str_of_nat i, context = ''n  x''\<rparr>,
                          \<lparr>url = ''https://f.org/'' @ str_of_nat i, context = ''n  x''\<rparr>])
                 [0..<10])"
    by code_simp
  from extract_links_first_twenty
        [of "''a http://x.y/1 b https://z/2 c''"
          "[([(''a '', ''http://x.y/1''), ('' b '', ''https://z/2'')], '' c'')]"] a
  have "extract_links_from_description ''a http://x.y/1 b https://z/2 c''
     = take 20 (concat (map seg_links
         [([(''a '', ''http://x.y/1''), ('' b '', ''https://z/2'')], '' c'')]))"
    by blast
  from this a' have e1: "extract_links_from_description ''a http://x.y/1 b https://z/2 c''
     = [\<lparr>url = ''http://x.y/1'', context = ''a  b  c''\<rparr>,
        \<lparr>url = ''https://z/2'', context = ''a  b  c''\<rparr>]"
    by (rule trans)
  from extract_links_first_twenty [of "''no links here''" "[([], ''no links here'')]"] b b'
  have e2: "extract_links_from_description ''no links here'' = []"
    by blast
  from extract_links_first_twenty [of two_per_line two_per_line_split] c c'
  have l3: "length (extract_links_from_description two_per_line) = 20"
    and "extract_links_from_description two_per_line
     = take 20 (concat (map seg_links two_per_line_split))"
    by blast+
  from this(2) c'' have e3: "extract_links_from_description two_per_line
     = concat (map (\<lambda>i. [\<lparr>url = ''http://e.org/'' @ str_of_nat i, context = ''n  x''\<rparr>,
                          \<lparr>url = ''https://f.org/'' @ str_of_nat i, context = ''n  x''\<rparr>])
                 [0..<10])"
    by (rule trans)
  show ?thesis
    using a e1 b e2 c c' l3 e3 by (intro conjI) assumption+
qed

section \<open>C5 and C6: the cue parser\<close>

lemma fold_vtt_step_entries:
  "entries (fold vtt_step ls st)
     = entries st @ keep_unseen (seen_text st) (cues_from (current_time st) ls)"
proof (induction ls arbitrary: st)
  case Nil
  show ?case by simp
next
  case (Cons raw ls)
  show ?case
  proof (cases "is_metadata (strip raw)")
    case True
    then have "vtt_step raw st = st" by (simp add: vtt_step_def)
    with True Cons show ?thesis by simp
  next
    case meta: False
    show ?thesis
    proof (cases "contains ''-->'' (strip raw)")
      case True
      show ?thesis
      proof (cases "match_time (strip raw)")
        case None
        with meta True have "vtt_step raw st = st" by (simp add: vtt_step_def)
        with meta True None Cons show ?thesis by simp
      next
        case (Some hms)
        obtain h m s where hms: "hms = (h, m, s)" by (cases hms)
        with meta True Some
        have "vtt_step raw st = st\<lparr>current_time := Some (h * 3600 + m * 60 + s)\<rparr>"
          by (simp add: vtt_step_def)
        with meta True Some hms Cons show ?thesis by simp
      qed
    next
      case arrow: False
      show ?thesis
      proof (cases "strip_tags (strip raw) \<noteq> [] \<and> strip_tags (strip raw) \<notin> seen_text st")
        case True
        with meta arrow
        have "vtt_step raw st = st\<lparr>seen_text := insert (strip_tags (strip raw)) (seen_text st),
            entries := entries st @
              [\<lparr>timestamp = stamp (current_time st), text = strip_tags (strip raw)\<rparr>]\<rparr>"
          by (simp add: vtt_step_def Let_def stamp_def)
        with meta arrow True Cons show ?thesis by simp
      next
        case False
        with meta arrow have "vtt_step raw st = st" by (auto simp: vtt_step_def Let_def)
        with meta arrow False Cons show ?thesis by auto
      qed
    qed
  qed
qed

lemma keep_unseen_insert:
  "keep_unseen (insert t S) cs = keep_unseen S (filter (\<lambda>d. text d \<noteq> t) cs)"
proof (induction cs arbitrary: S)
  case Nil
  show ?case by simp
next
  case (Cons d cs)
  show ?case
  proof (cases "text d = t")
    case True
    then show ?thesis by (simp add: Cons)
  next
    case False
    then show ?thesis by (simp add: Cons [symmetric] insert_commute)
  qed
qed

lemma keep_unseen_empty: "keep_unseen {} cs = first_by_text cs"
  by (induction cs rule: first_by_text.induct) (simp_all add: keep_unseen_insert)

lemma set_first_by_text: "set (first_by_text cs) \<subseteq> set cs"
  by (induction cs rule: first_by_text.induct) auto

lemma distinct_first_by_text: "distinct (map text (first_by_text cs))"
proof (induction cs rule: first_by_text.induct)
  case 1
  show ?case by simp
next
  case (2 c cs)
  have "text c \<notin> text ` set (first_by_text (filter (\<lambda>d. text d \<noteq> text c) cs))"
    using set_first_by_text [of "filter (\<lambda>d. text d \<noteq> text c) cs"] by auto
  with 2 show ?case by simp
qed

text \<open>
  C5. For every raw subtitle input, the parsed sequence is the sequence of content cues
  with, for every cleaned text, only its first occurrence kept: a later content line with
  the same cleaned text (compared exactly, case-sensitively) gives no cue whatever
  timestamps the occurrences stand under. Deduplication is over the whole parse, so no
  two entries of the result have the same text.
\<close>

theorem parse_vtt_first_occurrence:
  "parse_vtt_transcript (Some content)
     = first_by_text (cues_from None (split_on (CHR 0x0A) content))
   \<and> distinct (map text (parse_vtt_transcript vtt))"
proof
  show eq: "parse_vtt_transcript (Some content)
     = first_by_text (cues_from None (split_on (CHR 0x0A) content))" for content
    by (simp add: parse_vtt_transcript_def fold_vtt_step_entries keep_unseen_empty vtt_init_def)
  show "distinct (map text (parse_vtt_transcript vtt))"
  proof (cases vtt)
    case None
    then show ?thesis by (simp add: parse_vtt_transcript_def)
  next
    case (Some c)
    then show ?thesis by (simp add: eq distinct_first_by_text)
  qed
qed

text \<open>The theorem at an input that repeats a text under a second timestamp.\<close>

theorem parse_vtt_first_occurrence_witness:
  "parse_vtt_transcript (Some two_stamps)
     = [\<lparr>timestamp = ''[00:05]'', text = ''hello world''\<rparr>,
        \<lparr>timestamp = ''[01:07]'', text = ''again''\<rparr>]"
proof -
  have "first_by_text (cues_from None (split_on (CHR 0x0A) two_stamps))
     = [\<lparr>timestamp = ''[00:05]'', text = ''hello world''\<rparr>,
        \<lparr>timestamp = ''[01:07]'', text = ''again''\<rparr>]"
    by code_simp
  then show ?thesis
    using parse_vtt_first_occurrence [of two_stamps None] by simp
qed

text \<open>
  C6 (as the code has it). For every input line of the cue parser, a content line whose
  text is empty after inline markup tags are stripped is discarded: the loop state is
  unchanged (no cue, nothing added to the deduplication set), and the parse is the same as
  for the input without that line.
\<close>

theorem vtt_empty_content_discarded:
  "\<not> is_metadata (strip raw) \<Longrightarrow> \<not> contains ''-->'' (strip raw)
   \<Longrightarrow> strip_tags (strip raw) = []
   \<Longrightarrow> vtt_step raw st = st
       \<and> fold vtt_step (pre @ raw # post) st0 = fold vtt_step (pre @ post) st0"
  by (simp add: vtt_step_def)

text \<open>The theorem at a line that consists of two tags.\<close>

theorem vtt_empty_content_discarded_witness:
  "\<not> is_metadata (strip ''<c></c>'') \<and> \<not> contains ''-->'' (strip ''<c></c>'')
   \<and> strip_tags (strip ''<c></c>'') = []
   \<and> vtt_step ''<c></c>'' vtt_init = vtt_init
   \<and> fold vtt_step ([''one''] @ ''<c></c>'' # [''two'']) vtt_init
       = fold vtt_step ([''one''] @ [''two'']) vtt_init"
proof -
  have a: "\<not> is_metadata (strip ''<c></c>'')" by code_simp
  have b: "\<not> contains ''-->'' (strip ''<c></c>'')" by code_simp
  have c: "strip_tags (strip ''<c></c>'') = []" by code_simp
  from a b c show ?thesis
    using vtt_empty_content_discarded [OF a b c, of vtt_init "[''one'']" "[''two'']" vtt_init]
    by simp
qed

text \<open>
  C6 as stated fails: a content line that is one blank between two tags is not empty after
  the tags are stripped, so it gives a cue whose text is the blank, and the blank enters
  the deduplication set.
\<close>

theorem vtt_whitespace_content_counterexample:
  "\<not> is_metadata (strip ''<c> </c>'') \<and> \<not> contains ''-->'' (strip ''<c> </c>'')
   \<and> strip_tags (strip ''<c> </c>'') = '' '' \<and> list_all isspace '' ''
   \<and> parse_vtt_transcript (Some ''<c> </c>'') = [\<lparr>timestamp = ''[00:00]'', text = '' ''\<rparr>]
   \<and> seen_text (vtt_step ''<c> </c>'' vtt_init) = {'' ''}"
  by code_simp

section \<open>C7 and C8: sanitization\<close>

lemma sanitize_for_filename_clean:
  "t \<noteq> [] \<Longrightarrow> r \<noteq> CHR 0x5C \<Longrightarrow>
   sanitize_for_filename t n r
     = Inr (if sanitize_clean t n r = [] then ''untitled'' else sanitize_clean t n r)"
  by (simp add: sanitize_for_filename_def sanitize_clean_def Let_def)

lemma name_char_legal: "is_name_char c \<Longrightarrow> \<not> is_illegal c"
  by (auto simp: is_name_char_def is_illegal_def is_word_def is_ascii_alnum_def is_decimal_def
      code_def)

lemma name_char_not_space: "is_name_char c \<Longrightarrow> \<not> isspace c"
  by (auto simp: is_name_char_def isspace_def is_word_def is_ascii_alnum_def is_decimal_def
      code_def)

lemma name_char_not_backslash: "is_name_char c \<Longrightarrow> c \<noteq> CHR 0x5C"
  by (auto simp: is_name_char_def is_word_def is_ascii_alnum_def is_decimal_def code_def)

lemma list_all_dropWhile: "list_all P s \<Longrightarrow> list_all P (dropWhile q s)"
  by (auto simp: list_all_iff dest: set_dropWhileD)

lemma list_all_take: "list_all P s \<Longrightarrow> list_all P (take k s)"
  by (auto simp: list_all_iff dest: in_set_takeD)

lemma rstrip_by_take: "rstrip_by p s = take (length s - length (takeWhile p (rev s))) s"
  by (simp add: rstrip_by_def dropWhile_eq_drop rev_drop)

lemma list_all_rstrip_by: "list_all P s \<Longrightarrow> list_all P (rstrip_by q s)"
  by (simp add: rstrip_by_take list_all_take)

lemma list_all_strip_by: "list_all P s \<Longrightarrow> list_all P (strip_by q s)"
  by (simp add: strip_by_def lstrip_by_def list_all_rstrip_by list_all_dropWhile)

lemma list_all_py_take: "list_all P s \<Longrightarrow> list_all P (py_take n s)"
  by (simp add: py_take_def list_all_take)

lemma list_all_sub_spaces:
  "is_name_char r \<Longrightarrow> list_all (\<lambda>c. is_name_char c \<or> isspace c) s
   \<Longrightarrow> list_all is_name_char (sub_spaces r s)"
proof (induction r s rule: sub_spaces.induct)
  case (1 r)
  show ?case by simp
next
  case (2 r c cs)
  show ?case
  proof (cases "isspace c")
    case True
    with 2 show ?thesis by (simp add: list_all_dropWhile)
  next
    case False
    with 2 show ?thesis by simp
  qed
qed

lemma list_all_collapse: "list_all P s \<Longrightarrow> list_all P (collapse r s)"
proof (induction r s rule: collapse.induct)
  case (1 r)
  show ?case by simp
next
  case (2 r c cs)
  show ?case
  proof (cases "c = r")
    case True
    with 2 show ?thesis by (simp add: list_all_dropWhile)
  next
    case False
    with 2 show ?thesis by simp
  qed
qed

lemma collapse_Nil_iff: "collapse r s = [] \<longleftrightarrow> s = []"
  by (cases s) simp_all

lemma hd_collapse: "s \<noteq> [] \<Longrightarrow> hd (collapse r s) = hd s"
  by (cases s) simp_all

lemma no_double_collapse: "no_double r (collapse r s)"
proof (induction r s rule: collapse.induct)
  case (1 r)
  show ?case by simp
next
  case (2 r c cs)
  show ?case
  proof (cases "c = r")
    case True
    let ?d = "dropWhile (\<lambda>x. x = r) cs"
    have e: "collapse r ?d = [] \<or> hd (collapse r ?d) \<noteq> r"
    proof (cases "?d = []")
      case True
      then have "collapse r ?d = []" by (simp only: collapse.simps)
      then show ?thesis by (rule disjI1)
    next
      case False
      then have "hd ?d \<noteq> r"
        using hd_dropWhile [of "\<lambda>x. x = r" cs] by simp
      with False show ?thesis by (simp add: hd_collapse)
    qed
    from True 2 have "no_double r (collapse r ?d)" by simp
    with True e show ?thesis by (auto simp: collapse_Nil_iff)
  next
    case False
    with 2 show ?thesis by simp
  qed
qed

lemma no_double_tl: "no_double r (c # cs) \<Longrightarrow> no_double r cs"
  by simp

lemma no_double_dropWhile: "no_double r s \<Longrightarrow> no_double r (dropWhile p s)"
  by (induction s) simp_all

lemma no_double_take: "no_double r s \<Longrightarrow> no_double r (take k s)"
proof (induction s arbitrary: k)
  case Nil
  show ?case by simp
next
  case (Cons c cs)
  show ?case
  proof (cases k)
    case 0
    then show ?thesis by simp
  next
    case (Suc j)
    have "take j cs \<noteq> [] \<Longrightarrow> hd (take j cs) = hd cs"
      by (cases cs; cases j) simp_all
    with Cons Suc show ?thesis by auto
  qed
qed

lemma no_double_rstrip_by: "no_double r s \<Longrightarrow> no_double r (rstrip_by p s)"
  by (simp add: rstrip_by_take no_double_take)

lemma no_double_strip_by: "no_double r s \<Longrightarrow> no_double r (strip_by p s)"
  by (simp add: strip_by_def lstrip_by_def no_double_rstrip_by no_double_dropWhile)

lemma no_double_py_take: "no_double r s \<Longrightarrow> no_double r (py_take n s)"
  by (simp add: py_take_def no_double_take)

lemma no_double_absent: "r \<notin> set s \<Longrightarrow> no_double r s"
  by (induction s) auto

lemma collapse_no_double: "no_double r s \<Longrightarrow> collapse r s = s"
proof (induction s)
  case Nil
  show ?case by simp
next
  case (Cons c cs)
  then have ih: "collapse r cs = cs" by simp
  show ?case
  proof (cases "c = r")
    case True
    with Cons.prems have "cs = [] \<or> hd cs \<noteq> r" by auto
    then have "dropWhile (\<lambda>x. x = r) cs = cs"
      by (cases cs) auto
    with True ih show ?thesis by simp
  next
    case False
    with ih show ?thesis by simp
  qed
qed

lemma sub_spaces_none: "list_all (\<lambda>c. \<not> isspace c) s \<Longrightarrow> sub_spaces r s = s"
  by (induction s) simp_all

lemma rstrip_by_last: "rstrip_by p s \<noteq> [] \<Longrightarrow> \<not> p (last (rstrip_by p s))"
proof -
  assume n: "rstrip_by p s \<noteq> []"
  then have d: "dropWhile p (rev s) \<noteq> []" by (simp add: rstrip_by_def)
  then have "\<not> p (hd (dropWhile p (rev s)))" by (rule hd_dropWhile)
  with d show ?thesis by (simp add: rstrip_by_def last_rev)
qed

lemma rstrip_by_hd: "rstrip_by p s \<noteq> [] \<Longrightarrow> hd (rstrip_by p s) = hd s"
  by (cases s) (auto simp: rstrip_by_take hd_take split: if_splits)

lemma strip_by_id: "s = [] \<or> (\<not> p (hd s) \<and> \<not> p (last s)) \<Longrightarrow> strip_by p s = s"
proof (cases s)
  case Nil
  then show ?thesis by (simp add: strip_by_def lstrip_by_def rstrip_by_def)
next
  case (Cons c cs)
  assume "s = [] \<or> (\<not> p (hd s) \<and> \<not> p (last s))"
  with Cons have h: "\<not> p (hd s)" and l: "\<not> p (last s)" by auto
  from Cons h have 1: "dropWhile p s = s" by simp
  from l have "\<not> p (hd (rev s))" by (simp add: hd_rev)
  then have 2: "dropWhile p (rev s) = rev s" by (simp only: dropWhile_eq_self_iff) simp
  from 1 2 show ?thesis by (simp add: strip_by_def lstrip_by_def rstrip_by_def)
qed

lemma strip_by_ends:
  "strip_by p s = [] \<or> (\<not> p (hd (strip_by p s)) \<and> \<not> p (last (strip_by p s)))"
proof (cases "strip_by p s = []")
  case True
  then show ?thesis by simp
next
  case False
  then have n: "rstrip_by p (dropWhile p s) \<noteq> []" by (simp add: strip_by_def lstrip_by_def)
  then have d: "dropWhile p s \<noteq> []" by (auto simp: rstrip_by_take)
  have "hd (rstrip_by p (dropWhile p s)) = hd (dropWhile p s)" using n by (rule rstrip_by_hd)
  moreover have "\<not> p (hd (dropWhile p s))" using d by (rule hd_dropWhile)
  moreover have "\<not> p (last (rstrip_by p (dropWhile p s)))" using n by (rule rstrip_by_last)
  ultimately show ?thesis by (simp add: strip_by_def lstrip_by_def)
qed


lemma sanitize_fixed:
  assumes r: "is_name_char r" and ne: "s \<noteq> []" and al: "list_all is_name_char s"
    and nd: "no_double r s" and h: "hd s \<noteq> r" and l: "last s \<noteq> r"
    and len: "int (length s) \<le> n"
  shows "sanitize_for_filename s n r = Inr s"
proof -
  have f1: "filter (\<lambda>c. \<not> is_illegal c) s = s"
    using al by (auto simp: list_all_iff name_char_legal intro!: filter_True)
  have f2: "filter (\<lambda>c. is_word c \<or> isspace c \<or> c = CHR ''-'') s = s"
    using al by (auto simp: list_all_iff is_name_char_def intro!: filter_True)
  have ns: "list_all (\<lambda>c. \<not> isspace c) s"
    using al by (auto simp: list_all_iff name_char_not_space)
  from ne have "hd s \<in> set s" "last s \<in> set s" by simp_all
  with ns have "\<not> isspace (hd s) \<and> \<not> isspace (last s)" by (auto simp: list_all_iff)
  then have st: "strip s = s" unfolding strip_def by (intro strip_by_id) simp
  have ss: "sub_spaces r s = s" using ns by (rule sub_spaces_none)
  have co: "collapse r s = s" using nd by (rule collapse_no_double)
  have sb: "strip_by (\<lambda>c. c = r) s = s" by (rule strip_by_id) (simp add: h l)
  have "sanitize_clean s n r = s"
    using len by (simp add: sanitize_clean_def f1 f2 st ss co sb)
  with ne show ?thesis
    using sanitize_for_filename_clean [OF ne name_char_not_backslash [OF r], of n] by simp
qed

lemma sanitize_clean_good:
  assumes r: "is_name_char r" and n: "0 \<le> n"
  shows "list_all is_name_char (sanitize_clean t n r)"
    and "no_double r (sanitize_clean t n r)"
    and "sanitize_clean t n r = []
         \<or> (hd (sanitize_clean t n r) \<noteq> r \<and> last (sanitize_clean t n r) \<noteq> r)"
    and "int (length (sanitize_clean t n r)) \<le> n"
proof -
  define c2 where
    "c2 = filter (\<lambda>c. is_word c \<or> isspace c \<or> c = CHR ''-'') (filter (\<lambda>c. \<not> is_illegal c) t)"
  define c3 where "c3 = sub_spaces r (strip c2)"
  define c5 where "c5 = strip_by (\<lambda>c. c = r) (collapse r c3)"
  define c6 where "c6 = rstrip_by (\<lambda>c. c = r) (py_take n c5)"
  have a2: "list_all (\<lambda>c. is_name_char c \<or> isspace c) c2"
    by (auto simp: c2_def list_all_iff is_name_char_def)
  have a3: "list_all is_name_char c3"
    unfolding c3_def strip_def using a2 by (intro list_all_sub_spaces [OF r] list_all_strip_by)
  have a5: "list_all is_name_char c5"
    unfolding c5_def using a3 by (intro list_all_strip_by list_all_collapse)
  have d5: "no_double r c5"
    unfolding c5_def by (intro no_double_strip_by no_double_collapse)
  have e5: "c5 = [] \<or> (hd c5 \<noteq> r \<and> last c5 \<noteq> r)"
    unfolding c5_def using strip_by_ends [of "\<lambda>c. c = r" "collapse r c3"] by simp
  have a6: "list_all is_name_char c6"
    unfolding c6_def using a5 by (intro list_all_rstrip_by list_all_py_take)
  have d6: "no_double r c6"
    unfolding c6_def using d5 by (intro no_double_rstrip_by no_double_py_take)
  have pt: "py_take n c5 = take (nat n) c5" using n by (simp add: py_take_def)
  have e6: "c6 = [] \<or> (hd c6 \<noteq> r \<and> last c6 \<noteq> r)"
  proof (cases "c6 = []")
    case True
    then show ?thesis by simp
  next
    case False
    then have l: "last c6 \<noteq> r"
      unfolding c6_def using rstrip_by_last [of "\<lambda>c. c = r" "py_take n c5"] by simp
    from False have t: "take (nat n) c5 \<noteq> []"
      by (auto simp: c6_def pt rstrip_by_take)
    then have "0 < nat n" and "c5 \<noteq> []" by (auto intro: gr0I)
    with e5 have "hd (take (nat n) c5) \<noteq> r" by simp
    moreover from False have "hd c6 = hd (take (nat n) c5)"
      unfolding c6_def pt by (rule rstrip_by_hd)
    ultimately show ?thesis using l by simp
  qed
  have l6: "int (length c6) \<le> n"
    using n by (simp add: c6_def pt rstrip_by_take)
  have eq: "sanitize_clean t n r = (if int (length c5) > n then c6 else c5)"
    by (simp add: sanitize_clean_def c2_def c3_def c5_def c6_def)
  show "list_all is_name_char (sanitize_clean t n r)" using a5 a6 by (simp add: eq)
  show "no_double r (sanitize_clean t n r)" using d5 d6 by (simp add: eq)
  show "sanitize_clean t n r = []
         \<or> (hd (sanitize_clean t n r) \<noteq> r \<and> last (sanitize_clean t n r) \<noteq> r)"
    using e5 e6 by (simp add: eq)
  show "int (length (sanitize_clean t n r)) \<le> n"
    using l6 by (simp add: eq)
qed

lemma sanitize_placeholder:
  assumes r: "is_name_char r" and n: "8 \<le> n" and a: "r \<notin> set ''untitled''"
  shows "sanitize_for_filename ''untitled'' n r = Inr ''untitled''"
proof (rule sanitize_fixed [OF r])
  show "''untitled'' \<noteq> []" by simp
  show "list_all is_name_char ''untitled''"
    by (simp add: is_name_char_def is_word_def is_ascii_alnum_def is_decimal_def code_def)
  show "no_double r ''untitled''" using a by (rule no_double_absent)
  show "hd ''untitled'' \<noteq> r" using a by auto
  show "last ''untitled'' \<noteq> r" using a by auto
  show "int (length ''untitled'') \<le> n" using n by simp
qed

text \<open>
  C8 (as the code has it). Filename sanitization is idempotent for every input string and
  every separator that is a word character or a hyphen (the default \<open>_\<close> is one), in two
  cases: the max length is at least 8 and the separator does not occur in the placeholder
  \<open>untitled\<close>; or the max length is not negative and the first result is not the
  placeholder. In both, sanitizing the output returns the output unchanged.
\<close>

theorem sanitize_idempotent:
  assumes sep: "is_word r \<or> r = CHR ''-''"
    and size: "(8 \<le> n \<and> r \<notin> set ''untitled'')
               \<or> (0 \<le> n \<and> sanitize_for_filename t n r \<noteq> Inr ''untitled'')"
  shows "\<exists>s. sanitize_for_filename t n r = Inr s \<and> sanitize_for_filename s n r = Inr s"
proof -
  from sep have r: "is_name_char r" by (simp add: is_name_char_def)
  from size have n: "0 \<le> n" by auto
  let ?c = "sanitize_clean t n r"
  show ?thesis
  proof (cases "t = [] \<or> ?c = []")
    case True
    then have u: "sanitize_for_filename t n r = Inr ''untitled''"
      using sanitize_for_filename_clean [OF _ name_char_not_backslash [OF r], of t n]
      by (auto simp: sanitize_for_filename_def)
    with size have "8 \<le> n" and "r \<notin> set ''untitled''" by auto
    then have "sanitize_for_filename ''untitled'' n r = Inr ''untitled''"
      by (intro sanitize_placeholder [OF r])
    with u show ?thesis by simp
  next
    case False
    then have u: "sanitize_for_filename t n r = Inr ?c"
      using sanitize_for_filename_clean [OF _ name_char_not_backslash [OF r], of t n] by simp
    from False sanitize_clean_good [OF r n, of t]
    have "sanitize_for_filename ?c n r = Inr ?c"
      by (intro sanitize_fixed [OF r]) auto
    with u show ?thesis by simp
  qed
qed

text \<open>The theorem with the default separator, at max length 50 and at max length 4.\<close>

theorem sanitize_idempotent_witness:
  "(is_word (CHR ''_'') \<or> CHR ''_'' = CHR ''-'')
   \<and> 8 \<le> (50::int) \<and> CHR ''_'' \<notin> set ''untitled''
   \<and> sanitize_for_filename ''  A/B: c__d  e-f_ '' 50 (CHR ''_'') = Inr ''AB_c_d_e-f''
   \<and> sanitize_for_filename ''AB_c_d_e-f'' 50 (CHR ''_'') = Inr ''AB_c_d_e-f''
   \<and> 0 \<le> (4::int) \<and> sanitize_for_filename ''20 24'' 4 (CHR ''_'') = Inr ''20_2''
   \<and> sanitize_for_filename ''20_2'' 4 (CHR ''_'') = Inr ''20_2''"
proof -
  have a: "is_word (CHR ''_'') \<or> CHR ''_'' = CHR ''-''"
    by (simp add: is_word_def code_def)
  have b: "(8 \<le> (50::int) \<and> CHR ''_'' \<notin> set ''untitled'')
     \<or> (0 \<le> (50::int) \<and> sanitize_for_filename ''  A/B: c__d  e-f_ '' 50 (CHR ''_'') \<noteq> Inr ''untitled'')"
    by simp
  have c: "sanitize_for_filename ''  A/B: c__d  e-f_ '' 50 (CHR ''_'') = Inr ''AB_c_d_e-f''"
    by code_simp
  have d: "sanitize_for_filename ''20 24'' 4 (CHR ''_'') = Inr ''20_2''"
    by code_simp
  have e: "(8 \<le> (4::int) \<and> CHR ''_'' \<notin> set ''untitled'')
     \<or> (0 \<le> (4::int) \<and> sanitize_for_filename ''20 24'' 4 (CHR ''_'') \<noteq> Inr ''untitled'')"
    using d by simp
  from a c d show ?thesis
    using sanitize_idempotent [OF a b] sanitize_idempotent [OF a e] by simp
qed

text \<open>
  C8 as stated fails twice. With max length 4 the placeholder is sanitized to
  \<open>unti\<close>; with a full stop as separator the separator itself is removed by the next
  pass.
\<close>

theorem sanitize_not_idempotent_counterexample:
  "sanitize_for_filename [] 4 (CHR ''_'') = Inr ''untitled''
   \<and> sanitize_for_filename ''untitled'' 4 (CHR ''_'') = Inr ''unti''
   \<and> sanitize_for_filename ''a b'' 50 (CHR ''.'') = Inr ''a.b''
   \<and> sanitize_for_filename ''a.b'' 50 (CHR ''.'') = Inr ''ab''"
  by code_simp


lemma sanitize_underscore:
  "\<exists>s. sanitize_for_filename t n (CHR ''_'') = Inr s \<and> s \<noteq> []
     \<and> list_all is_name_char s \<and> (0 \<le> n \<longrightarrow> int (length s) \<le> n \<or> s = ''untitled'')"
proof -
  have r: "is_name_char (CHR ''_'')"
    by (simp add: is_name_char_def is_word_def code_def)
  have u: "list_all is_name_char ''untitled''"
    by (simp add: is_name_char_def is_word_def is_ascii_alnum_def is_decimal_def code_def)
  let ?c = "sanitize_clean t n (CHR ''_'')"
  show ?thesis
  proof (cases "t = [] \<or> ?c = []")
    case True
    then have "sanitize_for_filename t n (CHR ''_'') = Inr ''untitled''"
      using sanitize_for_filename_clean [of t "CHR ''_''" n]
      by (auto simp: sanitize_for_filename_def)
    with u show ?thesis by simp
  next
    case False
    then have e: "sanitize_for_filename t n (CHR ''_'') = Inr ?c"
      using sanitize_for_filename_clean [of t "CHR ''_''" n] by simp
    have a: "list_all is_name_char ?c"
    proof -
      define c2 where "c2 = filter (\<lambda>c. is_word c \<or> isspace c \<or> c = CHR ''-'')
          (filter (\<lambda>c. \<not> is_illegal c) t)"
      define c5 where
        "c5 = strip_by (\<lambda>c. c = CHR ''_'') (collapse (CHR ''_'') (sub_spaces (CHR ''_'') (strip c2)))"
      have "list_all (\<lambda>c. is_name_char c \<or> isspace c) c2"
        by (auto simp: c2_def list_all_iff is_name_char_def)
      then have a5: "list_all is_name_char c5"
        unfolding c5_def strip_def
        by (intro list_all_strip_by list_all_collapse list_all_sub_spaces [OF r])
      have "?c = (if int (length c5) > n
                  then rstrip_by (\<lambda>c. c = CHR ''_'') (py_take n c5) else c5)"
        by (simp add: sanitize_clean_def c2_def c5_def)
      with a5 show ?thesis
        by (simp add: list_all_rstrip_by list_all_py_take)
    qed
    have "0 \<le> n \<longrightarrow> int (length ?c) \<le> n"
      using sanitize_clean_good(4) [OF r, of n t] by simp
    with e a False show ?thesis by simp
  qed
qed

text \<open>
  C7 (as the code has it). For every input string, the sanitized year component used in
  the composed filename is a non-empty string that has at most 4 characters or is the
  placeholder \<open>untitled\<close>: sanitization truncates to the max length of the component (4
  for the year) and then substitutes the placeholder, untruncated, when the result would
  otherwise be empty; it never returns an empty string.
\<close>

theorem build_filename_year:
  "\<exists>a t y. build_filename author topic year max_length = Inr (a @ ''_'' @ t @ ''_'' @ y)
     \<and> sanitize_for_filename year 4 (CHR ''_'') = Inr y
     \<and> y \<noteq> [] \<and> (length y \<le> 4 \<or> y = ''untitled'')"
proof -
  obtain a where a: "sanitize_for_filename author 30 (CHR ''_'') = Inr a"
    using sanitize_underscore [of author 30] by blast
  obtain t where t: "sanitize_for_filename topic max_length (CHR ''_'') = Inr t"
    using sanitize_underscore [of topic max_length] by blast
  obtain y where y: "sanitize_for_filename year 4 (CHR ''_'') = Inr y" "y \<noteq> []"
      "int (length y) \<le> 4 \<or> y = ''untitled''"
    using sanitize_underscore [of year 4] by auto
  from a t y(1) have "build_filename author topic year max_length = Inr (a @ ''_'' @ t @ ''_'' @ y)"
    by (simp add: build_filename_def)
  with y show ?thesis by auto
qed

text \<open>
  C7 as stated fails: an empty year, or one without any word character, gives the
  placeholder, which has 8 characters.
\<close>

theorem build_filename_year_counterexample:
  "sanitize_for_filename [] 4 (CHR ''_'') = Inr ''untitled''
   \<and> sanitize_for_filename ''?!'' 4 (CHR ''_'') = Inr ''untitled''
   \<and> build_filename ''A'' ''B'' [] 50 = Inr ''A_B_untitled''
   \<and> \<not> length ''untitled'' \<le> 4"
  by code_simp

section \<open>C2: collision resolution\<close>

lemma mkdir_parents_other:
  "mkdir_parents p fs = Inr fs' \<Longrightarrow> \<not> prefix q p \<Longrightarrow> fs' q = fs q"
proof (induction p fs arbitrary: fs' rule: mkdir_parents.induct)
  case (1 p fs)
  show ?case
  proof (cases "p = []")
    case True
    with "1.prems" show ?thesis by (simp add: mkdir_parents.simps)
  next
    case False
    show ?thesis
    proof (cases "fs p")
      case (Some n)
      with False "1.prems" show ?thesis
        by (cases n) (simp_all add: mkdir_parents.simps [of p])
    next
      case None
      with False "1.prems" obtain fs'' where
        m: "mkdir_parents (butlast p) fs = Inr fs''" and f: "fs' = fs''(p \<mapsto> Dir)"
        and nf: "\<not> (butlast p \<noteq> [] \<and> fs (butlast p) = Some File)"
        by (auto simp: mkdir_parents.simps [of p] split: if_splits sum.splits)
      from "1.prems"(2) have q: "q \<noteq> p" by auto
      have "prefix (butlast p) p" by (simp add: prefixeq_butlast)
      with "1.prems"(2) have "\<not> prefix q (butlast p)"
        using prefix_order.trans by blast
      with "1.IH" [OF False None nf m] have "fs'' q = fs q" by simp
      with f q show ?thesis by simp
    qed
  qed
qed

lemma mkdir_parents_dir: "mkdir_parents p fs = Inr fs' \<Longrightarrow> p \<noteq> [] \<Longrightarrow> fs' p = Some Dir"
  by (subst (asm) mkdir_parents.simps)
     (auto split: option.splits node.splits if_splits sum.splits)

lemma mkdir_parents_again: "mkdir_parents p fs = Inr fs' \<Longrightarrow> mkdir_parents p fs' = Inr fs'"
proof (cases "p = []")
  case True
  then show ?thesis by (simp add: mkdir_parents.simps)
next
  case False
  assume "mkdir_parents p fs = Inr fs'"
  then have "fs' p = Some Dir" using False by (rule mkdir_parents_dir)
  with False show ?thesis by (simp add: mkdir_parents.simps [of p])
qed

lemma split_on_nonempty: "split_on d s \<noteq> []"
  by (induction s) (auto split: list.splits)

lemma hd_split_on: "hd (split_on d s) = takeWhile (\<lambda>c. c \<noteq> d) s"
  by (induction s) (auto split: list.splits simp: split_on_nonempty)

lemma path_parts_nonempty:
  assumes "f \<noteq> []" and "CHR ''/'' \<notin> set f"
  shows "path_parts (f @ ''.'' @ e) \<noteq> []"
proof -
  let ?s = "f @ ''.'' @ e"
  let ?h = "hd (split_on (CHR ''/'') ?s)"
  have "x \<noteq> CHR ''/''" if "x \<in> set f" for x
    using assms(2) that by auto
  then have "takeWhile (\<lambda>c. c \<noteq> CHR ''/'') ?s
      = f @ takeWhile (\<lambda>c. c \<noteq> CHR ''/'') (''.'' @ e)"
    by (rule takeWhile_append2)
  then have "?h = f @ ''.'' @ takeWhile (\<lambda>c. c \<noteq> CHR ''/'') e"
    by (simp add: hd_split_on)
  with assms(1) have h: "?h \<noteq> [] \<and> ?h \<noteq> ''.''" by (cases f) auto
  have "?h \<in> set (split_on (CHR ''/'') ?s)"
    by (simp add: split_on_nonempty)
  with h have "?h \<in> set (path_parts ?s)" by (simp add: path_parts_def)
  then show ?thesis by auto
qed

lemma joinpath_below:
  assumes "f \<noteq> []" and "CHR ''/'' \<notin> set f"
  shows "\<not> prefix (joinpath dir (f @ ''.'' @ e)) dir"
proof -
  from assms have "\<not> prefix ''/'' (f @ ''.'' @ e)" by (cases f) auto
  then have "joinpath dir (f @ ''.'' @ e) = dir @ path_parts (f @ ''.'' @ e)"
    by (simp add: joinpath_def)
  with path_parts_nonempty [OF assms] show ?thesis by (auto simp: prefix_def)
qed

lemma name_char_not_slash: "list_all is_name_char s \<Longrightarrow> CHR ''/'' \<notin> set s"
  by (auto simp: list_all_iff is_name_char_def is_word_def is_ascii_alnum_def is_decimal_def
      code_def)

lemma decimal_not_slash: "list_all is_decimal s \<Longrightarrow> CHR ''/'' \<notin> set s"
  by (auto simp: list_all_iff is_decimal_def code_def)

lemma build_filename_name:
  assumes "build_filename author topic year n = Inr f"
  shows "f \<noteq> [] \<and> CHR ''/'' \<notin> set f"
proof -
  obtain a where a: "sanitize_for_filename author 30 (CHR ''_'') = Inr a" "list_all is_name_char a"
    using sanitize_underscore [of author 30] by blast
  obtain t where t: "sanitize_for_filename topic n (CHR ''_'') = Inr t" "list_all is_name_char t"
    using sanitize_underscore [of topic n] by blast
  obtain y where y: "sanitize_for_filename year 4 (CHR ''_'') = Inr y" "list_all is_name_char y"
    using sanitize_underscore [of year 4] by blast
  from assms a(1) t(1) y(1) have f: "f = a @ ''_'' @ t @ ''_'' @ y"
    by (simp add: build_filename_def)
  from a(2) t(2) y(2) have "CHR ''/'' \<notin> set a" "CHR ''/'' \<notin> set t" "CHR ''/'' \<notin> set y"
    by (simp_all add: name_char_not_slash)
  with f show ?thesis by simp
qed

lemma attempt_name_ok:
  assumes "f \<noteq> []" and "CHR ''/'' \<notin> set f"
  shows "attempt_name f k \<noteq> [] \<and> CHR ''/'' \<notin> set (attempt_name f k)"
  using assms decimal_not_slash [OF str_of_nat_decimal, of k] by (simp add: attempt_name_def)

lemma attempt_path_same:
  assumes "f \<noteq> []" and "CHR ''/'' \<notin> set f" and "mkdir_parents dir fs = Inr fs'"
  shows "path_exists fs' (attempt_path dir f ext k) = path_exists fs (attempt_path dir f ext k)"
proof -
  have "\<not> prefix (attempt_path dir f ext k) dir"
    unfolding attempt_path_def using attempt_name_ok [OF assms(1,2), of k]
    by (intro joinpath_below) simp_all
  with assms(3) show ?thesis
    by (simp add: path_exists_def mkdir_parents_other)
qed

lemma build_output_path_attempt:
  assumes "sanitize_for_filename author 50 (CHR ''_'') = Inr folder"
    and "mkdir_parents (joinpath (expand_path base_dir) folder) fs = Inr fs'"
  shows "build_output_path expand_path base_dir author (attempt_name f k) ext fs
     = Inr (attempt_path (joinpath (expand_path base_dir) folder) f ext k, fs')"
  using assms by (simp add: build_output_path_def attempt_path_def)

lemma unique_loop_found:
  assumes a: "sanitize_for_filename author 50 (CHR ''_'') = Inr folder"
    and m: "mkdir_parents (joinpath (expand_path base_dir) folder) fs = Inr fs"
  shows "2 \<le> c \<Longrightarrow> c \<le> k \<Longrightarrow> k \<le> 100
    \<Longrightarrow> (\<And>j. c \<le> j \<Longrightarrow> j < k
          \<Longrightarrow> path_exists fs (attempt_path (joinpath (expand_path base_dir) folder) f ext j))
    \<Longrightarrow> \<not> path_exists fs (attempt_path (joinpath (expand_path base_dir) folder) f ext k)
    \<Longrightarrow> unique_loop expand_path base_dir author f ext c fs
        = Inr (attempt_path (joinpath (expand_path base_dir) folder) f ext k, fs)"
proof (induction "k - c" arbitrary: c)
  case 0
  have b: "build_output_path expand_path base_dir author (attempt_name f i) ext fs
     = Inr (attempt_path (joinpath (expand_path base_dir) folder) f ext i, fs)" for i
    using a m by (rule build_output_path_attempt)
  from 0 have c: "c = k" by simp
  from 0 have n: "f @ CHR ''_'' # str_of_nat c = attempt_name f c" by (simp add: attempt_name_def)
  from 0(6) show ?case
    unfolding c [symmetric]
    by (subst unique_loop.simps) (simp add: n b)
next
  case (Suc d)
  have b: "build_output_path expand_path base_dir author (attempt_name f i) ext fs
     = Inr (attempt_path (joinpath (expand_path base_dir) folder) f ext i, fs)" for i
    using a m by (rule build_output_path_attempt)
  from Suc have lt: "c < k" by simp
  from Suc.prems have n: "f @ CHR ''_'' # str_of_nat c = attempt_name f c"
    by (simp add: attempt_name_def)
  have e: "path_exists fs (attempt_path (joinpath (expand_path base_dir) folder) f ext c)"
    using Suc.prems(4) [of c] lt by simp
  have "unique_loop expand_path base_dir author f ext (Suc c) fs
        = Inr (attempt_path (joinpath (expand_path base_dir) folder) f ext k, fs)"
  proof (rule Suc.hyps(1))
    show "d = k - Suc c" using Suc.hyps(2) by simp
    show "2 \<le> Suc c" using Suc.prems(1) by simp
    show "Suc c \<le> k" using lt by simp
    show "k \<le> 100" by (rule Suc.prems(3))
    show "path_exists fs (attempt_path (joinpath (expand_path base_dir) folder) f ext j)"
      if "Suc c \<le> j" "j < k" for j using Suc.prems(4) [of j] that by simp
    show "\<not> path_exists fs (attempt_path (joinpath (expand_path base_dir) folder) f ext k)"
      by (rule Suc.prems(5))
  qed
  moreover from lt Suc.prems(3) have "\<not> c + 1 > 100" by simp
  ultimately show ?case
    using e by (subst unique_loop.simps) (simp add: n b)
qed

lemma unique_loop_exhausted:
  assumes a: "sanitize_for_filename author 50 (CHR ''_'') = Inr folder"
    and m: "mkdir_parents (joinpath (expand_path base_dir) folder) fs = Inr fs"
  shows "2 \<le> c \<Longrightarrow> c \<le> 100
    \<Longrightarrow> (\<And>j. c \<le> j \<Longrightarrow> j \<le> 100
          \<Longrightarrow> path_exists fs (attempt_path (joinpath (expand_path base_dir) folder) f ext j))
    \<Longrightarrow> unique_loop expand_path base_dir author f ext c fs
        = Inl (ValueError (''Too many files with same name: '' @ f))"
proof (induction "100 - c" arbitrary: c)
  case 0
  have b: "build_output_path expand_path base_dir author (attempt_name f i) ext fs
     = Inr (attempt_path (joinpath (expand_path base_dir) folder) f ext i, fs)" for i
    using a m by (rule build_output_path_attempt)
  from 0 have c: "c = 100" by simp
  from 0 have n: "f @ CHR ''_'' # str_of_nat c = attempt_name f c" by (simp add: attempt_name_def)
  have e: "path_exists fs (attempt_path (joinpath (expand_path base_dir) folder) f ext c)"
    using 0(4) [of c] 0(3) by simp
  from c have g: "100 < c + 1" by simp
  show ?case
    using e g by (subst unique_loop.simps) (simp add: n b)
next
  case (Suc d)
  have b: "build_output_path expand_path base_dir author (attempt_name f i) ext fs
     = Inr (attempt_path (joinpath (expand_path base_dir) folder) f ext i, fs)" for i
    using a m by (rule build_output_path_attempt)
  from Suc have lt: "c < 100" by simp
  from Suc.prems have n: "f @ CHR ''_'' # str_of_nat c = attempt_name f c"
    by (simp add: attempt_name_def)
  have e: "path_exists fs (attempt_path (joinpath (expand_path base_dir) folder) f ext c)"
    using Suc.prems(3) [of c] lt by simp
  have "unique_loop expand_path base_dir author f ext (Suc c) fs
        = Inl (ValueError (''Too many files with same name: '' @ f))"
  proof (rule Suc.hyps(1))
    show "d = 100 - Suc c" using Suc.hyps(2) by simp
    show "2 \<le> Suc c" using Suc.prems(1) by simp
    show "Suc c \<le> 100" using lt by simp
    show "path_exists fs (attempt_path (joinpath (expand_path base_dir) folder) f ext j)"
      if "Suc c \<le> j" "j \<le> 100" for j using Suc.prems(3) [of j] that by simp
  qed
  moreover from lt have "\<not> c + 1 > 100" by simp
  ultimately show ?case
    using e by (subst unique_loop.simps) (simp add: n b)
qed

text \<open>
  C2. For every author/topic/year naming triple and base directory (with the author folder
  created without error): when attempt 1, the composed path, does not exist it is
  returned unchanged; when it exists, the suffixes \<open>_2\<close>, \<open>_3\<close>, ... are appended to the
  whole base filename in increasing order and the first path that does not exist is
  returned; and when all 100 attempts exist the call fails with the naming-exhausted
  error instead of returning a path. Existence is that of the file system before the call.
\<close>

theorem generate_unique_filename_first_free:
  assumes f: "build_filename author topic year 50 = Inr filename"
    and a: "sanitize_for_filename author 50 (CHR ''_'') = Inr folder"
    and d: "dir = joinpath (expand_path base_dir) folder"
    and m: "mkdir_parents dir fs = Inr fs'"
  shows "(1 \<le> k \<and> k \<le> 100
          \<and> (\<forall>j\<in>{1..<k}. path_exists fs (attempt_path dir filename extension j))
          \<and> \<not> path_exists fs (attempt_path dir filename extension k)
         \<longrightarrow> generate_unique_filename expand_path base_dir author topic year extension fs
               = Inr (attempt_path dir filename extension k, fs'))
     \<and> ((\<forall>j\<in>{1..100}. path_exists fs (attempt_path dir filename extension j))
         \<longrightarrow> generate_unique_filename expand_path base_dir author topic year extension fs
               = Inl (ValueError (''Too many files with same name: '' @ filename)))"
proof -
  let ?at = "attempt_path dir filename extension"
  from build_filename_name [OF f] have nm: "filename \<noteq> []" "CHR ''/'' \<notin> set filename"
    by simp_all
  have same: "path_exists fs' (?at j) = path_exists fs (?at j)" for j
    using nm m by (rule attempt_path_same)
  from m have m': "mkdir_parents (joinpath (expand_path base_dir) folder) fs' = Inr fs'"
    unfolding d by (rule mkdir_parents_again)
  have "build_output_path expand_path base_dir author (attempt_name filename 1) extension fs
      = Inr (?at 1, fs')"
    unfolding d using a m [unfolded d] by (rule build_output_path_attempt)
  then have first:
    "build_output_path expand_path base_dir author filename extension fs = Inr (?at 1, fs')"
    by (simp add: attempt_name_def)
  have gen: "generate_unique_filename expand_path base_dir author topic year extension fs
      = (if \<not> path_exists fs (?at 1) then Inr (?at 1, fs')
         else unique_loop expand_path base_dir author filename extension 2 fs')"
    by (simp add: generate_unique_filename_def f first same)
  have found: "generate_unique_filename expand_path base_dir author topic year extension fs
               = Inr (?at k, fs')"
    if k: "1 \<le> k" "k \<le> 100" and ex: "\<forall>j\<in>{1..<k}. path_exists fs (?at j)"
      and free: "\<not> path_exists fs (?at k)"
  proof (cases "k = 1")
    case True
    with free show ?thesis by (simp add: gen)
  next
    case False
    with k have k2: "2 \<le> k" by simp
    with ex have e1: "path_exists fs (?at 1)" by simp
    have "unique_loop expand_path base_dir author filename extension 2 fs' = Inr (?at k, fs')"
      unfolding d
    proof (rule unique_loop_found [where expand_path = expand_path and base_dir = base_dir, OF a m'])
      show "(2::nat) \<le> 2" by simp
      show "2 \<le> k" by (rule k2)
      show "k \<le> 100" by (rule k(2))
      show "path_exists fs'
          (attempt_path (joinpath (expand_path base_dir) folder) filename extension j)"
        if "2 \<le> j" "j < k" for j
        using ex that same [of j] by (simp add: d)
      show "\<not> path_exists fs'
          (attempt_path (joinpath (expand_path base_dir) folder) filename extension k)"
        using free same [of k] by (simp add: d)
    qed
    with e1 show ?thesis by (simp add: gen)
  qed
  have full: "generate_unique_filename expand_path base_dir author topic year extension fs
               = Inl (ValueError (''Too many files with same name: '' @ filename))"
    if ex: "\<forall>j\<in>{1..100}. path_exists fs (?at j)"
  proof -
    from ex have e1: "path_exists fs (?at 1)" by simp
    have "unique_loop expand_path base_dir author filename extension 2 fs'
        = Inl (ValueError (''Too many files with same name: '' @ filename))"
    proof (rule unique_loop_exhausted [where expand_path = expand_path and base_dir = base_dir, OF a m'])
      show "(2::nat) \<le> 2" by simp
      show "(2::nat) \<le> 100" by simp
      show "path_exists fs'
          (attempt_path (joinpath (expand_path base_dir) folder) filename extension j)"
        if "2 \<le> j" "j \<le> 100" for j
        using ex that same [of j] by (simp add: d)
    qed
    with e1 show ?thesis by (simp add: gen)
  qed
  from found full show ?thesis by blast
qed

text \<open>
  The theorem at the directory that holds \<open>X_Y_2024.md\<close>, at the one that holds
  \<open>X_Y_2024_2.md\<close> too, at a full disk and at an empty one.
\<close>

theorem generate_unique_filename_first_free_witness:
  "generate_unique_filename out_dir ''~/t'' ''X'' ''Y'' ''2024'' ''md'' disk1
     = Inr ([''out'', ''X'', ''X_Y_2024_2.md''], disk1)
   \<and> generate_unique_filename out_dir ''~/t'' ''X'' ''Y'' ''2024'' ''md'' disk2
     = Inr ([''out'', ''X'', ''X_Y_2024_3.md''], disk2)
   \<and> generate_unique_filename out_dir ''~/t'' ''X'' ''Y'' ''2024'' ''md'' full_disk
     = Inl (ValueError ''Too many files with same name: X_Y_2024'')
   \<and> generate_unique_filename out_dir ''~/t'' ''X'' ''Y'' ''2024'' ''md'' Map.empty
     = Inr ([''out'', ''X'', ''X_Y_2024.md''], [[''out''] \<mapsto> Dir, [''out'', ''X''] \<mapsto> Dir])"
proof -
  have f: "build_filename ''X'' ''Y'' ''2024'' 50 = Inr ''X_Y_2024''"
    by code_simp
  have a: "sanitize_for_filename ''X'' 50 (CHR ''_'') = Inr ''X''"
    by code_simp
  have d: "[''out'', ''X''] = joinpath (out_dir ''~/t'') ''X''"
    by code_simp
  have at: "attempt_path [''out'', ''X''] ''X_Y_2024'' ''md'' 1 = [''out'', ''X'', ''X_Y_2024.md'']"
    "attempt_path [''out'', ''X''] ''X_Y_2024'' ''md'' 2 = [''out'', ''X'', ''X_Y_2024_2.md'']"
    "attempt_path [''out'', ''X''] ''X_Y_2024'' ''md'' 3 = [''out'', ''X'', ''X_Y_2024_3.md'']"
    by code_simp+
  have m1: "mkdir_parents [''out'', ''X''] disk1 = Inr disk1"
    by (simp add: mkdir_parents.simps disk1_def)
  have m2: "mkdir_parents [''out'', ''X''] disk2 = Inr disk2"
    by (simp add: mkdir_parents.simps disk2_def disk1_def)
  have m3: "mkdir_parents [''out'', ''X''] full_disk = Inr full_disk"
    by (simp add: mkdir_parents.simps full_disk_def)
  have e1: "path_exists disk1 [''out'', ''X'', ''X_Y_2024.md'']"
    "path_exists disk2 [''out'', ''X'', ''X_Y_2024.md'']"
    "path_exists disk2 [''out'', ''X'', ''X_Y_2024_2.md'']"
    by (simp_all add: path_exists_def disk2_def disk1_def)
  have n1: "\<not> path_exists disk1 [''out'', ''X'', ''X_Y_2024_2.md'']"
    "\<not> path_exists disk2 [''out'', ''X'', ''X_Y_2024_3.md'']"
    by (simp_all add: path_exists_def disk2_def disk1_def)
  have b1: "\<forall>j\<in>{1..<2::nat}. path_exists disk1 (attempt_path [''out'', ''X''] ''X_Y_2024'' ''md'' j)"
  proof
    fix j :: nat
    assume "j \<in> {1..<2}"
    then have "j = 1" by simp
    with e1(1) show "path_exists disk1 (attempt_path [''out'', ''X''] ''X_Y_2024'' ''md'' j)"
      by (simp only: at)
  qed
  have b2: "\<forall>j\<in>{1..<3::nat}. path_exists disk2 (attempt_path [''out'', ''X''] ''X_Y_2024'' ''md'' j)"
  proof
    fix j :: nat
    assume "j \<in> {1..<3}"
    then have "j = 1 \<or> j = 2" by auto
    with e1(2,3) show "path_exists disk2 (attempt_path [''out'', ''X''] ''X_Y_2024'' ''md'' j)"
      by (auto simp only: at)
  qed
  have h1: "1 \<le> (2::nat) \<and> (2::nat) \<le> 100
      \<and> (\<forall>j\<in>{1..<2::nat}. path_exists disk1 (attempt_path [''out'', ''X''] ''X_Y_2024'' ''md'' j))
      \<and> \<not> path_exists disk1 (attempt_path [''out'', ''X''] ''X_Y_2024'' ''md'' 2)"
    using b1 n1(1) by (simp only: at) simp
  have h2: "1 \<le> (3::nat) \<and> (3::nat) \<le> 100
      \<and> (\<forall>j\<in>{1..<3::nat}. path_exists disk2 (attempt_path [''out'', ''X''] ''X_Y_2024'' ''md'' j))
      \<and> \<not> path_exists disk2 (attempt_path [''out'', ''X''] ''X_Y_2024'' ''md'' 3)"
    using b2 n1(2) by (simp only: at) simp
  have h3: "\<forall>j\<in>{1..100::nat}. path_exists full_disk (attempt_path [''out'', ''X''] ''X_Y_2024'' ''md'' j)"
    by (simp add: path_exists_def full_disk_def)
  have g1: "generate_unique_filename out_dir ''~/t'' ''X'' ''Y'' ''2024'' ''md'' disk1
     = Inr (attempt_path [''out'', ''X''] ''X_Y_2024'' ''md'' 2, disk1)"
    using h1 generate_unique_filename_first_free
      [where expand_path = out_dir and base_dir = "''~/t''" and k = 2 and extension = "''md''",
        OF f a d m1]
    by blast
  have g2: "generate_unique_filename out_dir ''~/t'' ''X'' ''Y'' ''2024'' ''md'' disk2
     = Inr (attempt_path [''out'', ''X''] ''X_Y_2024'' ''md'' 3, disk2)"
    using h2 generate_unique_filename_first_free
      [where expand_path = out_dir and base_dir = "''~/t''" and k = 3 and extension = "''md''",
        OF f a d m2]
    by blast
  have g3: "generate_unique_filename out_dir ''~/t'' ''X'' ''Y'' ''2024'' ''md'' full_disk
     = Inl (ValueError (''Too many files with same name: '' @ ''X_Y_2024''))"
    using h3 generate_unique_filename_first_free
      [where expand_path = out_dir and base_dir = "''~/t''" and k = 1 and extension = "''md''",
        OF f a d m3]
    by blast
  have m0: "mkdir_parents [''out'', ''X''] Map.empty
      = Inr [[''out''] \<mapsto> Dir, [''out'', ''X''] \<mapsto> Dir]"
    by (simp add: mkdir_parents.simps)
  have h0: "1 \<le> (1::nat) \<and> (1::nat) \<le> 100
      \<and> (\<forall>j\<in>{1..<1::nat}. path_exists Map.empty (attempt_path [''out'', ''X''] ''X_Y_2024'' ''md'' j))
      \<and> \<not> path_exists Map.empty (attempt_path [''out'', ''X''] ''X_Y_2024'' ''md'' 1)"
    by (simp add: path_exists_def)
  have g0: "generate_unique_filename out_dir ''~/t'' ''X'' ''Y'' ''2024'' ''md'' Map.empty
     = Inr (attempt_path [''out'', ''X''] ''X_Y_2024'' ''md'' 1,
            [[''out''] \<mapsto> Dir, [''out'', ''X''] \<mapsto> Dir])"
    using h0 generate_unique_filename_first_free
      [where expand_path = out_dir and base_dir = "''~/t''" and k = 1 and extension = "''md''",
        OF f a d m0]
    by blast
  from g0 g1 g2 g3 show ?thesis
    by (simp only: at) simp
qed

section \<open>C1 and C4: the batch phases\<close>

lemma process_loop_acc:
  "process_loop env ob il vs rs w
     = (rs @ fst (process_loop env ob il vs [] w), snd (process_loop env ob il vs [] w))"
proof (induction vs arbitrary: rs w)
  case Nil
  show ?case by (simp add: process_loop.simps)
next
  case (Cons v vs)
  obtain r w1 where p: "process_and_save_video env v ob il w = (r, w1)"
    by (cases "process_and_save_video env v ob il w")
  show ?case
    using Cons [of "rs @ [r]" w1] Cons [of "[r]" w1] by (simp add: p process_loop.simps)
qed

lemma process_loop_Cons:
  "process_loop env ob il (v # vs) [] w
     = (case process_and_save_video env v ob il w of
          (r, w1) \<Rightarrow> (case process_loop env ob il vs [] w1 of (rs, w2) \<Rightarrow> (r # rs, w2)))"
proof -
  obtain r w1 where p: "process_and_save_video env v ob il w = (r, w1)"
    by (cases "process_and_save_video env v ob il w")
  have "process_loop env ob il (v # vs) [] w = process_loop env ob il vs [r] w1"
    by (simp add: p process_loop.simps)
  also have "\<dots> = (r # fst (process_loop env ob il vs [] w1),
                     snd (process_loop env ob il vs [] w1))"
    using process_loop_acc [of env ob il vs "[r]" w1] by simp
  finally show ?thesis
    by (simp add: p case_prod_beta)
qed

lemma process_loop_append:
  "process_loop env ob il (xs @ v # ys) [] w
     = (case process_loop env ob il xs [] w of
          (rs1, w1) \<Rightarrow>
            (case process_and_save_video env v ob il w1 of
               (r, w2) \<Rightarrow>
                 (case process_loop env ob il ys [] w2 of
                    (rs2, w3) \<Rightarrow> (rs1 @ r # rs2, w3))))"
proof (induction xs arbitrary: w)
  case Nil
  show ?case by (simp add: process_loop_Cons process_loop.simps(1) split: prod.splits)
next
  case (Cons x xs)
  show ?case
    by (simp add: process_loop_Cons Cons split: prod.splits)
qed

lemma process_result_cases:
  "process_and_save_video env v ob il w
     = (case save_video env v ob il w of
          (Inr (filename, video, fs), w') \<Rightarrow>
            (\<lparr>r_video_id = video_id v, r_url = video_url v, status = ''success'',
              message = ''Saved: '' @ filename, r_title = title video, files = fs\<rparr>, w')
        | (Inl e, w') \<Rightarrow>
            (\<lparr>r_video_id = video_id v, r_url = video_url v, status = ''error'',
              message = str_exception env e, r_title = [], files = []\<rparr>, w'))"
proof -
  obtain x w' where s: "save_video env v ob il w = (x, w')"
    by (cases "save_video env v ob il w")
  show ?thesis
  proof (cases x)
    case (Inl e)
    with s show ?thesis by (simp add: process_and_save_video_def)
  next
    case (Inr y)
    obtain filename video fs where y: "y = (filename, video, fs)" by (cases y)
    with s Inr show ?thesis by (simp add: process_and_save_video_def)
  qed
qed

lemma process_result_ids:
  "r_video_id (fst (process_and_save_video env v ob il w)) = video_id v
   \<and> r_url (fst (process_and_save_video env v ob il w)) = video_url v"
proof -
  obtain x w' where s: "save_video env v ob il w = (x, w')"
    by (cases "save_video env v ob il w")
  show ?thesis
    by (cases x) (auto simp: process_result_cases s)
qed

lemma process_result_status:
  "status (fst (process_and_save_video env v ob il w))
     = (case fst (save_video env v ob il w) of Inl e \<Rightarrow> ''error'' | Inr x \<Rightarrow> ''success'')"
proof -
  obtain x w' where s: "save_video env v ob il w = (x, w')"
    by (cases "save_video env v ob il w")
  show ?thesis
    by (cases x) (auto simp: process_result_cases s)
qed

lemma process_result_message:
  "message (fst (process_and_save_video env v ob il w))
     = (case fst (save_video env v ob il w) of
          Inl e \<Rightarrow> str_exception env e
        | Inr (filename, x) \<Rightarrow> ''Saved: '' @ filename)"
proof -
  obtain x w' where s: "save_video env v ob il w = (x, w')"
    by (cases "save_video env v ob il w")
  show ?thesis
    by (cases x) (auto simp: process_result_cases s)
qed

lemma process_loop_results:
  "length (fst (process_loop env ob il vs [] w)) = length vs
   \<and> map r_video_id (fst (process_loop env ob il vs [] w)) = map video_id vs
   \<and> map r_url (fst (process_loop env ob il vs [] w)) = map video_url vs
   \<and> list_all (\<lambda>r. status r = ''success'' \<or> status r = ''error'')
        (fst (process_loop env ob il vs [] w))"
proof (induction vs arbitrary: w)
  case Nil
  show ?case by (simp add: process_loop.simps)
next
  case (Cons v vs)
  obtain r w1 where p: "process_and_save_video env v ob il w = (r, w1)"
    by (cases "process_and_save_video env v ob il w")
  obtain rs w2 where l: "process_loop env ob il vs [] w1 = (rs, w2)"
    by (cases "process_loop env ob il vs [] w1")
  have s: "status r = ''success'' \<or> status r = ''error''"
    using process_result_status [of env v ob il w] by (simp add: p split: sum.splits)
  have i: "r_video_id r = video_id v \<and> r_url r = video_url v"
    using process_result_ids [of env v ob il w] by (simp add: p)
  from Cons [of w1] s i show ?case
    by (simp add: process_loop_Cons p l)
qed

text \<open>
  C1. For every frozen batch of n selected items, processing appends exactly one
  \<open>ProcessResult\<close> per item in the original item order, so the results have exactly n
  entries with the identifiers and URLs of the items; every result is a success or an
  error. An exception raised while one item is processed (download, filename build or
  write) is captured in that item's result, with status \<open>error\<close> and the text of the
  exception. It does not stop the batch: the results before the item are those of the
  items before it, and the items after it are processed from the world it left.
\<close>

theorem processing_one_result_per_item:
  "phase (fst (render_processing_phase env ob il st w)) = ''complete''
   \<and> length (results (fst (render_processing_phase env ob il st w)))
       = length (filter selected (pending_videos st))
   \<and> map r_video_id (results (fst (render_processing_phase env ob il st w)))
       = map video_id (filter selected (pending_videos st))
   \<and> map r_url (results (fst (render_processing_phase env ob il st w)))
       = map video_url (filter selected (pending_videos st))
   \<and> list_all (\<lambda>r. status r = ''success'' \<or> status r = ''error'')
        (results (fst (render_processing_phase env ob il st w)))
   \<and> status (fst (process_and_save_video env v ob il w))
       = (case fst (save_video env v ob il w) of Inl e \<Rightarrow> ''error'' | Inr x \<Rightarrow> ''success'')
   \<and> message (fst (process_and_save_video env v ob il w))
       = (case fst (save_video env v ob il w) of
            Inl e \<Rightarrow> str_exception env e
          | Inr (filename, x) \<Rightarrow> ''Saved: '' @ filename)
   \<and> process_loop env ob il (xs @ v # ys) [] w
       = (case process_loop env ob il xs [] w of
            (rs1, w1) \<Rightarrow>
              (case process_and_save_video env v ob il w1 of
                 (r, w2) \<Rightarrow>
                   (case process_loop env ob il ys [] w2 of
                      (rs2, w3) \<Rightarrow> (rs1 @ r # rs2, w3))))"
proof -
  let ?vs = "filter selected (pending_videos st)"
  have r: "results (fst (render_processing_phase env ob il st w))
      = fst (process_loop env ob il ?vs [] w)"
    by (simp add: render_processing_phase_def split: prod.splits)
  have p: "phase (fst (render_processing_phase env ob il st w)) = ''complete''"
    by (simp add: render_processing_phase_def split: prod.splits)
  show ?thesis
    unfolding r
    using p process_loop_results [of env ob il ?vs w] process_result_status [of env v ob il w]
      process_result_message [of env v ob il w] process_loop_append [of env ob il xs v ys w]
    by simp
qed

text \<open>The theorem at four pending videos, three of them selected, the second of which
  cannot be downloaded.\<close>

theorem processing_one_result_per_item_witness:
  "map status (results (fst (render_processing_phase demo_env ''~/t'' True demo_state demo_world)))
     = [''success'', ''error'', ''success'']
   \<and> length (results (fst (render_processing_phase demo_env ''~/t'' True demo_state demo_world)))
     = length (filter selected (pending_videos demo_state))
   \<and> map r_video_id (results (fst (render_processing_phase demo_env ''~/t'' True demo_state demo_world)))
     = [''one'', ''bad'', ''three'']"
proof -
  have a: "map status (results (fst (render_processing_phase demo_env ''~/t'' True demo_state demo_world)))
     = [''success'', ''error'', ''success'']"
    by code_simp
  have b: "map video_id (filter selected (pending_videos demo_state)) = [''one'', ''bad'', ''three'']"
    by code_simp
  from a b show ?thesis
    using processing_one_result_per_item [of demo_env "''~/t''" True demo_state demo_world]
    by simp
qed

lemma render_review_phase_eq:
  "render_review_phase edited back_clicked save_clicked st =
     (if back_clicked then reset_state (st\<lparr>pending_videos := edited_videos edited st\<rparr>)
      else if length (filter selected (edited_videos edited st)) \<noteq> 0 \<and> save_clicked
        then st\<lparr>pending_videos := edited_videos edited st, phase := ''processing''\<rparr>
      else st\<lparr>pending_videos := edited_videos edited st\<rparr>)"
  by (simp add: render_review_phase_def edited_videos_def button_def Let_def)

text \<open>
  C4 (as the code has it). In the review screen the transition to processing, attempted
  when zero items have \<open>selected = true\<close>, is rejected: the save button is disabled, so a
  click on it does what no click does; the phase remains \<open>review\<close>, the items stay as
  edited and the results are unchanged.
\<close>

theorem review_save_rejected:
  assumes "phase st = ''review''"
    and "length (filter selected (edited_videos edited st)) = 0"
  shows "render_review_phase edited False True st = render_review_phase edited False False st
     \<and> phase (render_review_phase edited False True st) = ''review''
     \<and> pending_videos (render_review_phase edited False True st) = edited_videos edited st
     \<and> results (render_review_phase edited False True st) = results st"
  using assms by (simp add: render_review_phase_eq)

text \<open>The theorem at one pending video that the user has just unselected.\<close>

theorem review_save_rejected_witness:
  "phase demo_review = ''review''
   \<and> length (filter selected (edited_videos [unselect] demo_review)) = 0
   \<and> phase (render_review_phase [unselect] False True demo_review) = ''review''
   \<and> results (render_review_phase [unselect] False True demo_review) = []"
proof -
  have a: "phase demo_review = ''review''"
    by (simp add: demo_review_def)
  have b: "length (filter selected (edited_videos [unselect] demo_review)) = 0"
    by code_simp
  have c: "results demo_review = []"
    by (simp add: demo_review_def)
  from review_save_rejected [OF a b]
  have p: "phase (render_review_phase [unselect] False True demo_review) = ''review''"
    and q: "results (render_review_phase [unselect] False True demo_review) = results demo_review"
    by blast+
  from a b c p q show ?thesis
    by simp
qed

text \<open>
  C4 as stated fails for \<open>BatchState.to_processing\<close>: the method checks nothing, and with
  zero selected items it moves the phase to \<open>processing\<close>.
\<close>

theorem to_processing_unguarded_counterexample:
  "phase demo_review = ''review''
   \<and> filter selected (pending_videos (demo_review\<lparr>pending_videos := edited_videos [unselect] demo_review\<rparr>)) = []
   \<and> phase (to_processing (demo_review\<lparr>pending_videos := edited_videos [unselect] demo_review\<rparr>))
       = ''processing''"
  by code_simp

end
